theory Spec2Isabelle
  imports Main "HOL-Library.AList" "HOL-Library.Multiset"
begin

section \<open>FriendlyFire: staggered rolling restarts of labelled containers\<close>

text \<open>
  A shallow embedding of the \<^verbatim>\<open>FriendlyFire\<close> class: the constructor and
  \<^verbatim>\<open>_getServiceEnv\<close>, the discovery coroutine \<^verbatim>\<open>_updateMemory\<close> with
  \<^verbatim>\<open>_updateServiceMapping\<close> and \<^verbatim>\<open>_sortContainersByAge\<close>, and the rollover
  coroutine \<^verbatim>\<open>_worker\<close>. The source has two variants of the class; the one embedded
  is the one with \<^verbatim>\<open>serviceRerollDistance\<close>. The other has no stagger term in the two
  due times and starts discovery from a timer; \<^verbatim>\<open>_getServiceEnv\<close>,
  \<^verbatim>\<open>_sortContainersByAge\<close>, the grouping of the listing, the drift test and the
  worker's flag, rotation and calls are the same text in both.

  Times are JavaScript millisecond timestamps (\<open>int\<close>). Strings are byte strings;
  \<^verbatim>\<open>toLowerCase\<close> is modelled on ASCII letters, which is what compose service
  names consist of.
\<close>

subsection \<open>Strings\<close>

definition toLowerChar :: "char \<Rightarrow> char" where
  "toLowerChar c =
     (let n = (of_char c :: nat) in if 65 \<le> n \<and> n \<le> 90 then char_of (n + 32) else c)"

definition toLowerCase :: "string \<Rightarrow> string" where
  "toLowerCase s = map toLowerChar s"

text \<open>
  \<^verbatim>\<open>String.prototype.split(sep)\<close> for a one-character separator: every occurrence
  of the separator ends a component, empty components are kept, and a string without the
  separator is its own single component.
\<close>

fun split :: "char \<Rightarrow> string \<Rightarrow> string list" where
  "split sep [] = [[]]"
| "split sep (c # cs) =
     (if c = sep then [] # split sep cs
      else (case split sep cs of [] \<Rightarrow> [[c]] | w # ws \<Rightarrow> (c # w) # ws))"

subsection \<open>Data model\<close>

type_synonym service = string
type_synonym containerId = string
type_synonym time = int

datatype error = InvalidServices | RuntimeError | TypeError

text \<open>An element of the runtime's container listing.\<close>

record container =
  container_Id :: containerId
  container_Labels :: "string \<rightharpoonup> string"

text \<open>The answer to an inspection: \<^verbatim>\<open>Id\<close> and \<^verbatim>\<open>State.StartedAt\<close> (as a timestamp).\<close>

record containerInfo =
  info_Id :: containerId
  info_StartedAt :: time

text \<open>
  The container runtime client. Every call is issued at a clock reading and answers with
  its result and the number of milliseconds it took.
\<close>

record docker =
  listContainers :: "time \<Rightarrow> (error + container list) \<times> nat"
  inspect :: "time \<Rightarrow> containerId \<Rightarrow> (error + containerInfo) \<times> nat"
  stop :: "time \<Rightarrow> containerId \<Rightarrow> error option \<times> nat"
  start :: "time \<Rightarrow> containerId \<Rightarrow> error option \<times> nat"

text \<open>What the program does to the outside, in order: runtime calls and due-time assignments.\<close>

datatype event =
    CallList
  | CallInspect containerId
  | CallStop containerId
  | CallStart containerId
  | SetDue service time time

text \<open>
  The object's fields (\<^verbatim>\<open>_config\<close> and \<^verbatim>\<open>_workerMutex\<close>), the clock
  \<open>now\<close> that \<^verbatim>\<open>Date.now()\<close> and \<^verbatim>\<open>new Date()\<close> read, and the trace of
  events so far. The clock advances while a call or a sleep is awaited; between two
  \<^verbatim>\<open>yield\<close>s the code reads one and the same instant.
  \<^verbatim>\<open>serviceMap\<close> is a JavaScript \<^verbatim>\<open>Map\<close>: an association list in insertion order,
  written with \<open>AList.update\<close> (replace in place, or append a new key).
  \<^verbatim>\<open>serviceIntervals\<close> is an object used as a dictionary; a missing key reads
  \<^verbatim>\<open>undefined\<close>, which is not less than any date.
\<close>

record friendlyFire =
  rolloverInterval :: int
  initialDebounce :: int
  serviceRerollDistance :: int
  services :: "service list"
  serviceMap :: "(service \<times> containerId list) list"
  serviceIntervals :: "service \<rightharpoonup> time"
  dockerConfig :: "(string \<times> string) option"
  workerMutex :: bool
  now :: time
  trace :: "event list"

subsection \<open>Construction\<close>

definition truthy :: "string option \<Rightarrow> bool" where
  "truthy v = (case v of None \<Rightarrow> False | Some s \<Rightarrow> s \<noteq> [])"

definition getServiceEnv :: "(string \<rightharpoonup> string) \<Rightarrow> friendlyFire \<Rightarrow> error + friendlyFire" where
  "getServiceEnv env this =
     (case env ''FF_SERVICES'' of
        None \<Rightarrow> Inl InvalidServices
      | Some services' \<Rightarrow>
          if services' = [] then Inl InvalidServices
          else Inr (this\<lparr>services := split CHR '','' (toLowerCase services')\<rparr>))"

text \<open>
  The constructor: the fields, the runtime connection, then \<^verbatim>\<open>_getServiceEnv\<close>. The
  worker timer and the discovery loop are started after it, so an error here means neither
  ever runs.
\<close>

definition constructor :: "(string \<rightharpoonup> string) \<Rightarrow> time \<Rightarrow> error + friendlyFire" where
  "constructor env t =
     getServiceEnv env
       \<lparr>rolloverInterval = 30 * 60 * 1000,
        initialDebounce = 5 * 60 * 1000,
        serviceRerollDistance = 5 * 60 * 1000,
        services = [],
        serviceMap = [],
        serviceIntervals = Map.empty,
        dockerConfig =
          (if truthy (env ''FF_DOCKER_HOST'') \<and> truthy (env ''FF_DOCKER_PORT'')
           then Some (the (env ''FF_DOCKER_HOST''), the (env ''FF_DOCKER_PORT'')) else None),
        workerMutex = False,
        now = t,
        trace = []\<rparr>"

subsection \<open>The engine's array sort\<close>

text \<open>
  \<^verbatim>\<open>Array.prototype.sort(comparefn)\<close> is the JavaScript engine's: a comparison sort
  that sees the elements only through \<^verbatim>\<open>comparefn\<close>. It is a parameter of the model:
  given the comparator on positions and the length, it answers the order in which the
  positions are output. For a comparator that is not a consistent ordering the language
  leaves the order to the engine. The engine compares positions of the array only, and
  positions it does not output are dropped.
\<close>

type_synonym engine_sort = "(nat \<Rightarrow> nat \<Rightarrow> int) \<Rightarrow> nat \<Rightarrow> nat list"

definition array_sort :: "engine_sort \<Rightarrow> ('a \<Rightarrow> 'a \<Rightarrow> int) \<Rightarrow> 'a list \<Rightarrow> 'a list" where
  "array_sort srt comparefn xs =
     map (\<lambda>k. xs ! k)
       (filter (\<lambda>k. k < length xs)
          (srt (\<lambda>i j. if i < length xs \<and> j < length xs then comparefn (xs ! i) (xs ! j) else 0)
             (length xs)))"

text \<open>What every engine guarantees: the output is a rearrangement of the positions.\<close>

definition permuting :: "engine_sort \<Rightarrow> bool" where
  "permuting srt = (\<forall>comparefn n. mset (srt comparefn n) = mset [0..<n])"

text \<open>
  One such engine, used for concrete runs: straight insertion from the right, the
  algorithm of V8's \<^verbatim>\<open>InsertionSort\<close> for short arrays. \<open>insertRight\<close> works on the
  already placed prefix in reverse (rightmost element first).
\<close>

fun insertRight :: "(nat \<Rightarrow> nat \<Rightarrow> int) \<Rightarrow> nat \<Rightarrow> nat list \<Rightarrow> nat list" where
  "insertRight comparefn element [] = [element]"
| "insertRight comparefn element (tmp # below) =
     (if comparefn tmp element > 0 then tmp # insertRight comparefn element below
      else element # tmp # below)"

definition insertionSort :: engine_sort where
  "insertionSort comparefn n = rev (foldl (\<lambda>placed element. insertRight comparefn element placed) [] [0..<n])"

subsection \<open>Container age ordering\<close>

text \<open>
  \<^verbatim>\<open>Promise.all\<close>: fulfilled with all the values once the slowest call has answered,
  rejected with the error of the failing call that answers first.
\<close>

fun firstRejection :: "((error + 'a) \<times> nat) list \<Rightarrow> (error \<times> nat) option" where
  "firstRejection [] = None"
| "firstRejection ((Inr v, d) # rs) = firstRejection rs"
| "firstRejection ((Inl e, d) # rs) =
     (case firstRejection rs of
        None \<Rightarrow> Some (e, d)
      | Some (e', d') \<Rightarrow> if d' < d then Some (e', d') else Some (e, d))"

definition promiseAll :: "((error + 'a) \<times> nat) list \<Rightarrow> (error + 'a list) \<times> nat" where
  "promiseAll rs =
     (case firstRejection rs of
        Some (e, d) \<Rightarrow> (Inl e, d)
      | None \<Rightarrow> (Inr (map (projr \<circ> fst) rs), foldr max (map snd rs) 0))"

text \<open>
  The comparator of \<^verbatim>\<open>_sortContainersByAge\<close>: it reads the start time of its first
  argument only, and compares it with the clock reading taken before the sort.
\<close>

definition ageComparator :: "time \<Rightarrow> containerInfo \<Rightarrow> containerInfo \<Rightarrow> int" where
  "ageComparator now' a b =
     (let started = info_StartedAt a
      in if started > now' then - 1 else if started < now' then 1 else 0)"

text \<open>The part of \<^verbatim>\<open>_sortContainersByAge\<close> after the inspections have answered.\<close>

definition sortedByAge :: "engine_sort \<Rightarrow> time \<Rightarrow> containerInfo list \<Rightarrow> containerId list" where
  "sortedByAge srt now' containerInfo =
     map info_Id (array_sort srt (ageComparator now') containerInfo)"

definition sortContainersByAge ::
  "engine_sort \<Rightarrow> docker \<Rightarrow> containerId list \<Rightarrow> friendlyFire
     \<Rightarrow> (error + containerId list) \<times> friendlyFire" where
  "sortContainersByAge srt rt containerIds this =
     (case promiseAll (map (inspect rt (now this)) containerIds) of
        (r, d) \<Rightarrow>
          let this1 = this\<lparr>now := now this + int d,
                           trace := trace this @ map CallInspect containerIds\<rparr>
          in (case r of
                Inl e \<Rightarrow> (Inl e, this1)
              | Inr containerInfo \<Rightarrow> (Inr (sortedByAge srt (now this1) containerInfo), this1)))"

subsection \<open>Remapping a service\<close>

text \<open>
  The part of \<^verbatim>\<open>_updateServiceMapping\<close> after the sort: the list is committed under
  the service's key and the due time is reset.
\<close>

definition commitMapping ::
  "nat \<Rightarrow> service \<Rightarrow> containerId list \<Rightarrow> friendlyFire \<Rightarrow> friendlyFire" where
  "commitMapping serviceIndex rootService sortedContainerIds this =
     (let dueAt = now this + initialDebounce this + serviceRerollDistance this * int serviceIndex
      in this\<lparr>serviceMap := AList.update rootService sortedContainerIds (serviceMap this),
              serviceIntervals := (serviceIntervals this)(rootService \<mapsto> dueAt),
              trace := trace this @ [SetDue rootService (now this) dueAt]\<rparr>)"

definition updateServiceMapping ::
  "engine_sort \<Rightarrow> docker \<Rightarrow> nat \<Rightarrow> service \<Rightarrow> containerId list \<Rightarrow> friendlyFire
     \<Rightarrow> error option \<times> friendlyFire" where
  "updateServiceMapping srt rt serviceIndex rootService containerIds this =
     (case sortContainersByAge srt rt containerIds this of
        (Inl e, this1) \<Rightarrow> (Some e, this1)
      | (Inr sortedContainerIds, this1) \<Rightarrow>
          (None, commitMapping serviceIndex rootService sortedContainerIds this1))"

subsection \<open>Discovery\<close>

text \<open>The body of the \<^verbatim>\<open>containers.forEach\<close> that groups the listing by service label.\<close>

definition populateContainer ::
  "service list \<Rightarrow> (service \<times> containerId list) list \<Rightarrow> container
     \<Rightarrow> (service \<times> containerId list) list" where
  "populateContainer qualifiedServices serviceMap' c =
     (case container_Labels c ''com.docker.compose.service'' of
        None \<Rightarrow> serviceMap'
      | Some rawRootService \<Rightarrow>
          if rawRootService = [] then serviceMap'
          else
            let rootService = toLowerCase rawRootService
            in if rootService \<in> set qualifiedServices
               then
                 let services' = (case map_of serviceMap' rootService of None \<Rightarrow> [] | Some l \<Rightarrow> l)
                 in AList.update rootService
                      (if container_Id c \<in> set services' then services'
                       else services' @ [container_Id c])
                      serviceMap'
               else serviceMap')"

definition populate :: "service list \<Rightarrow> container list \<Rightarrow> (service \<times> containerId list) list" where
  "populate qualifiedServices containers = foldl (populateContainer qualifiedServices) [] containers"

definition idsDiffer :: "containerId list \<Rightarrow> containerId list \<Rightarrow> bool" where
  "idsDiffer newContainerIds containerIds =
     list_ex (\<lambda>containerId. containerId \<notin> set containerIds) newContainerIds"

text \<open>The loop of the first run, over the entries of the freshly assigned map.\<close>

fun firstRunLoop ::
  "engine_sort \<Rightarrow> docker \<Rightarrow> nat \<Rightarrow> (service \<times> containerId list) list \<Rightarrow> friendlyFire
     \<Rightarrow> error option \<times> friendlyFire" where
  "firstRunLoop srt rt i [] this = (None, this)"
| "firstRunLoop srt rt i ((rootService, containerIds) # rest) this =
     (case updateServiceMapping srt rt i rootService containerIds this of
        (Some e, this1) \<Rightarrow> (Some e, this1)
      | (None, this1) \<Rightarrow> firstRunLoop srt rt (Suc i) rest this1)"

text \<open>
  The loop of every later run, over the committed entries; \<open>serviceMap'\<close> is the freshly
  discovered map. The list handed to the remap is \<^verbatim>\<open>containerIds\<close>, the committed one.
\<close>

fun driftLoop ::
  "engine_sort \<Rightarrow> docker \<Rightarrow> (service \<times> containerId list) list \<Rightarrow> nat
     \<Rightarrow> (service \<times> containerId list) list \<Rightarrow> friendlyFire \<Rightarrow> error option \<times> friendlyFire" where
  "driftLoop srt rt serviceMap' i [] this = (None, this)"
| "driftLoop srt rt serviceMap' i ((rootService, containerIds) # rest) this =
     (case map_of serviceMap' rootService of
        None \<Rightarrow> driftLoop srt rt serviceMap' i rest this
      | Some newContainerIds \<Rightarrow>
          if idsDiffer newContainerIds containerIds
          then (case updateServiceMapping srt rt i rootService containerIds this of
                  (Some e, this1) \<Rightarrow> (Some e, this1)
                | (None, this1) \<Rightarrow> driftLoop srt rt serviceMap' (Suc i) rest this1)
          else driftLoop srt rt serviceMap' i rest this)"

text \<open>
  One round of the \<^verbatim>\<open>while(true)\<close> of \<^verbatim>\<open>_updateMemory\<close>, run without the worker
  in between: a one-second sleep when the flag is set; otherwise the listing, the grouping
  and one of the two loops (the first run goes on without sleeping, a later run sleeps five
  seconds; a sleep is taken to last exactly its time). An error ends the coroutine. Both
  loops walk the entries the map has when the loop starts: a remap writes the key of the
  entry at hand only, so the live iterator of the \<^verbatim>\<open>Map\<close> sees the same entries.
\<close>

definition updateMemory :: "engine_sort \<Rightarrow> docker \<Rightarrow> friendlyFire \<Rightarrow> error option \<times> friendlyFire" where
  "updateMemory srt rt this =
     (if workerMutex this then (None, this\<lparr>now := now this + 1000\<rparr>)
      else
        (case listContainers rt (now this) of
           (r, d) \<Rightarrow>
             let this1 = this\<lparr>now := now this + int d, trace := trace this @ [CallList]\<rparr>
             in (case r of
                   Inl e \<Rightarrow> (Some e, this1)
                 | Inr containers \<Rightarrow>
                     let serviceMap' = populate (services this1) containers
                     in if serviceMap this1 = []
                        then firstRunLoop srt rt 0 serviceMap' (this1\<lparr>serviceMap := serviceMap'\<rparr>)
                        else (case driftLoop srt rt serviceMap' 0 (serviceMap this1) this1 of
                                (Some e, this2) \<Rightarrow> (Some e, this2)
                              | (None, this2) \<Rightarrow> (None, this2\<lparr>now := now this2 + 5000\<rparr>)))))"

subsection \<open>Rollover\<close>

definition containerIdDisplay :: "containerId \<Rightarrow> string" where
  "containerIdDisplay containerId = take 9 containerId"

definition due :: "friendlyFire \<Rightarrow> service \<Rightarrow> bool" where
  "due this rootService =
     (case serviceIntervals this rootService of None \<Rightarrow> False | Some t \<Rightarrow> t < now this)"

text \<open>
  The synchronous head of a rollover: the new due time, then \<^verbatim>\<open>shift\<close> and
  \<^verbatim>\<open>push\<close> on the array the map holds, so the map holds the rotated list from here
  on, before the stop is awaited. On an empty array \<^verbatim>\<open>shift\<close> answers
  \<^verbatim>\<open>undefined\<close> and \<^verbatim>\<open>_containerIdDisplay\<close> throws a \<^verbatim>\<open>TypeError\<close>; the array
  then holds the one element \<^verbatim>\<open>undefined\<close>, which a list of ids cannot show, so the
  model leaves the list empty there.
\<close>

definition beginRollover ::
  "nat \<Rightarrow> service \<Rightarrow> containerId list \<Rightarrow> friendlyFire
     \<Rightarrow> (error + containerId \<times> containerId list) \<times> friendlyFire" where
  "beginRollover i rootService containerIds this =
     (let dueAt = now this + rolloverInterval this + serviceRerollDistance this * int i;
          this1 = this\<lparr>serviceIntervals := (serviceIntervals this)(rootService \<mapsto> dueAt),
                       trace := trace this @ [SetDue rootService (now this) dueAt]\<rparr>
      in (case containerIds of
            [] \<Rightarrow> (Inl TypeError, this1)
          | containerId # others \<Rightarrow>
              (Inr (containerId, others @ [containerId]),
               this1\<lparr>serviceMap := AList.update rootService (others @ [containerId]) (serviceMap this1)\<rparr>)))"

definition callStop :: "docker \<Rightarrow> containerId \<Rightarrow> friendlyFire \<Rightarrow> error option \<times> friendlyFire" where
  "callStop rt containerId this =
     (case stop rt (now this) containerId of
        (r, d) \<Rightarrow> (r, this\<lparr>now := now this + int d, trace := trace this @ [CallStop containerId]\<rparr>))"

definition callStart :: "docker \<Rightarrow> containerId \<Rightarrow> friendlyFire \<Rightarrow> error option \<times> friendlyFire" where
  "callStart rt containerId this =
     (case start rt (now this) containerId of
        (r, d) \<Rightarrow> (r, this\<lparr>now := now this + int d, trace := trace this @ [CallStart containerId]\<rparr>))"

text \<open>The body of the worker's \<^verbatim>\<open>if\<close>: stop, then start, then the list is set again.\<close>

definition rollover ::
  "docker \<Rightarrow> nat \<Rightarrow> service \<Rightarrow> containerId list \<Rightarrow> friendlyFire \<Rightarrow> error option \<times> friendlyFire" where
  "rollover rt i rootService containerIds this =
     (case beginRollover i rootService containerIds this of
        (Inl e, this1) \<Rightarrow> (Some e, this1)
      | (Inr (containerId, rotated), this1) \<Rightarrow>
          (case callStop rt containerId this1 of
             (Some e, this2) \<Rightarrow> (Some e, this2)
           | (None, this2) \<Rightarrow>
               (case callStart rt containerId this2 of
                  (Some e, this3) \<Rightarrow> (Some e, this3)
                | (None, this3) \<Rightarrow>
                    (None, this3\<lparr>serviceMap := AList.update rootService rotated (serviceMap this3)\<rparr>))))"

fun workerLoop ::
  "docker \<Rightarrow> nat \<Rightarrow> (service \<times> containerId list) list \<Rightarrow> friendlyFire
     \<Rightarrow> error option \<times> friendlyFire" where
  "workerLoop rt i [] this = (None, this)"
| "workerLoop rt i ((rootService, containerIds) # rest) this =
     (if due this rootService
      then (case rollover rt i rootService containerIds this of
              (Some e, this1) \<Rightarrow> (Some e, this1)
            | (None, this1) \<Rightarrow> workerLoop rt (Suc i) rest this1)
      else workerLoop rt i rest this)"

text \<open>
  One call of \<^verbatim>\<open>_worker\<close>, run without the discovery loop in between. The flag is
  cleared by the last statement only: an error leaves the coroutine before it. The loop
  walks the entries the map has at the start of the pass; a rollover writes the key of the
  entry at hand only.
\<close>

definition worker :: "docker \<Rightarrow> friendlyFire \<Rightarrow> error option \<times> friendlyFire" where
  "worker rt this =
     (if workerMutex this then (None, this)
      else (case workerLoop rt 0 (serviceMap this) (this\<lparr>workerMutex := True\<rparr>) of
              (Some e, this1) \<Rightarrow> (Some e, this1)
            | (None, this1) \<Rightarrow> (None, this1\<lparr>workerMutex := False\<rparr>)))"

subsection \<open>The two coroutines on one event loop\<close>

text \<open>
  \<^verbatim>\<open>_updateMemory\<close> and \<^verbatim>\<open>_worker\<close> are coroutines of one single-threaded
  event loop: each runs without interruption from one \<^verbatim>\<open>yield\<close> to the next, and
  between two such segments the other may run. The states below say where each coroutine
  is suspended, with the local variables it still needs; an action is the event that
  resumes one of them (a timer firing, or the runtime answering a call) with its clock
  reading.

  The iterators over \<^verbatim>\<open>serviceMap\<close> are live: they are kept as a position in the
  map, and read the entry there when they advance.
\<close>

datatype discoveryState =
    DSleeping time
  | DListing
  | DInspecting bool "(service \<times> containerId list) list" nat nat service
  | DEnded

datatype workerState =
    WIdle
  | WStopping nat nat service "containerId list" containerId
  | WStarting nat nat service "containerId list" containerId

record system =
  object :: friendlyFire
  updateMemoryAt :: discoveryState
  workerAt :: workerState

datatype action =
    Tick time
  | Wake time
  | Listed time "error + container list"
  | Inspected time "error + containerInfo list"
  | Stopped time "error option"
  | Started time "error option"

fun at :: "action \<Rightarrow> time" where
  "at (Tick t) = t"
| "at (Wake t) = t"
| "at (Listed t r) = t"
| "at (Inspected t r) = t"
| "at (Stopped t r) = t"
| "at (Started t r) = t"

text \<open>The head of the \<^verbatim>\<open>while(true)\<close>: the only place where the flag is read.\<close>

definition discoveryHead :: "friendlyFire \<Rightarrow> discoveryState \<times> friendlyFire" where
  "discoveryHead this =
     (if workerMutex this then (DSleeping (now this + 1000), this)
      else (DListing, this\<lparr>trace := trace this @ [CallList]\<rparr>))"

definition firstRunFrom :: "nat \<Rightarrow> nat \<Rightarrow> friendlyFire \<Rightarrow> discoveryState \<times> friendlyFire" where
  "firstRunFrom i pos this =
     (if pos < length (serviceMap this)
      then (case serviceMap this ! pos of
              (rootService, containerIds) \<Rightarrow>
                (DInspecting True [] i pos rootService,
                 this\<lparr>trace := trace this @ map CallInspect containerIds\<rparr>))
      else discoveryHead this)"

fun nextDrift ::
  "(service \<times> containerId list) list \<Rightarrow> nat \<Rightarrow> (service \<times> containerId list) list
     \<Rightarrow> (nat \<times> service \<times> containerId list) option" where
  "nextDrift serviceMap' pos [] = None"
| "nextDrift serviceMap' pos ((rootService, containerIds) # rest) =
     (case map_of serviceMap' rootService of
        None \<Rightarrow> nextDrift serviceMap' (Suc pos) rest
      | Some newContainerIds \<Rightarrow>
          if idsDiffer newContainerIds containerIds then Some (pos, rootService, containerIds)
          else nextDrift serviceMap' (Suc pos) rest)"

definition driftFrom ::
  "(service \<times> containerId list) list \<Rightarrow> nat \<Rightarrow> nat \<Rightarrow> friendlyFire
     \<Rightarrow> discoveryState \<times> friendlyFire" where
  "driftFrom serviceMap' i pos this =
     (case nextDrift serviceMap' pos (drop pos (serviceMap this)) of
        Some (p, rootService, containerIds) \<Rightarrow>
          (DInspecting False serviceMap' i p rootService,
           this\<lparr>trace := trace this @ map CallInspect containerIds\<rparr>)
      | None \<Rightarrow> (DSleeping (now this + 5000), this))"

definition afterList ::
  "(error + container list) \<Rightarrow> friendlyFire \<Rightarrow> discoveryState \<times> friendlyFire" where
  "afterList r this =
     (case r of
        Inl e \<Rightarrow> (DEnded, this)
      | Inr containers \<Rightarrow>
          let serviceMap' = populate (services this) containers
          in if serviceMap this = [] then firstRunFrom 0 0 (this\<lparr>serviceMap := serviceMap'\<rparr>)
             else driftFrom serviceMap' 0 0 this)"

definition afterInspect ::
  "engine_sort \<Rightarrow> bool \<Rightarrow> (service \<times> containerId list) list \<Rightarrow> nat \<Rightarrow> nat \<Rightarrow> service
     \<Rightarrow> (error + containerInfo list) \<Rightarrow> friendlyFire \<Rightarrow> discoveryState \<times> friendlyFire" where
  "afterInspect srt first serviceMap' i pos rootService r this =
     (case r of
        Inl e \<Rightarrow> (DEnded, this)
      | Inr containerInfo \<Rightarrow>
          let this1 = commitMapping i rootService (sortedByAge srt (now this) containerInfo) this
          in if first then firstRunFrom (Suc i) (Suc pos) this1
             else driftFrom serviceMap' (Suc i) (Suc pos) this1)"

fun nextDue ::
  "friendlyFire \<Rightarrow> nat \<Rightarrow> (service \<times> containerId list) list
     \<Rightarrow> (nat \<times> service \<times> containerId list) option" where
  "nextDue this pos [] = None"
| "nextDue this pos ((rootService, containerIds) # rest) =
     (if due this rootService then Some (pos, rootService, containerIds)
      else nextDue this (Suc pos) rest)"

text \<open>
  The worker's loop from a position on, up to its next \<^verbatim>\<open>yield\<close>: either a due
  service is found and its stop is issued, or the loop ends and the flag is cleared. A
  rejected or thrown error ends the coroutine where it stands.
\<close>

definition workerFrom :: "nat \<Rightarrow> nat \<Rightarrow> friendlyFire \<Rightarrow> workerState \<times> friendlyFire" where
  "workerFrom i pos this =
     (case nextDue this pos (drop pos (serviceMap this)) of
        None \<Rightarrow> (WIdle, this\<lparr>workerMutex := False\<rparr>)
      | Some (p, rootService, containerIds) \<Rightarrow>
          (case beginRollover i rootService containerIds this of
             (Inl e, this1) \<Rightarrow> (WIdle, this1)
           | (Inr (containerId, rotated), this1) \<Rightarrow>
               (WStopping (Suc i) p rootService rotated containerId,
                this1\<lparr>trace := trace this1 @ [CallStop containerId]\<rparr>)))"

definition resumeDiscovery ::
  "engine_sort \<Rightarrow> action \<Rightarrow> discoveryState \<Rightarrow> friendlyFire
     \<Rightarrow> (discoveryState \<times> friendlyFire) option" where
  "resumeDiscovery srt a d this =
     (case (a, d) of
        (Wake t, DSleeping until) \<Rightarrow> if until \<le> t then Some (discoveryHead this) else None
      | (Listed t r, DListing) \<Rightarrow> Some (afterList r this)
      | (Inspected t r, DInspecting first serviceMap' i pos rootService) \<Rightarrow>
          Some (afterInspect srt first serviceMap' i pos rootService r this)
      | _ \<Rightarrow> None)"

definition resumeWorker ::
  "action \<Rightarrow> workerState \<Rightarrow> friendlyFire \<Rightarrow> (workerState \<times> friendlyFire) option" where
  "resumeWorker a w this =
     (case (a, w) of
        (Tick t, w') \<Rightarrow>
          if workerMutex this then Some (w', this)
          else if w' = WIdle then Some (workerFrom 0 0 (this\<lparr>workerMutex := True\<rparr>))
          else None
      | (Stopped t r, WStopping i pos rootService containerIds containerId) \<Rightarrow>
          (case r of
             Some e \<Rightarrow> Some (WIdle, this)
           | None \<Rightarrow>
               Some (WStarting i pos rootService containerIds containerId,
                     this\<lparr>trace := trace this @ [CallStart containerId]\<rparr>))
      | (Started t r, WStarting i pos rootService containerIds containerId) \<Rightarrow>
          (case r of
             Some e \<Rightarrow> Some (WIdle, this)
           | None \<Rightarrow>
               Some (workerFrom i (Suc pos)
                       (this\<lparr>serviceMap := AList.update rootService containerIds (serviceMap this)\<rparr>)))
      | _ \<Rightarrow> None)"

fun forWorker :: "action \<Rightarrow> bool" where
  "forWorker (Tick t) = True"
| "forWorker (Stopped t r) = True"
| "forWorker (Started t r) = True"
| "forWorker a = False"

text \<open>One step of the event loop; \<open>None\<close> when the action cannot happen in this state.\<close>

definition step :: "engine_sort \<Rightarrow> action \<Rightarrow> system \<Rightarrow> system option" where
  "step srt a sys =
     (if at a < now (object sys) then None
      else
        let this = (object sys)\<lparr>now := at a\<rparr>
        in if forWorker a
           then (case resumeWorker a (workerAt sys) this of
                   None \<Rightarrow> None
                 | Some (w, this') \<Rightarrow> Some (sys\<lparr>object := this', workerAt := w\<rparr>))
           else (case resumeDiscovery srt a (updateMemoryAt sys) this of
                   None \<Rightarrow> None
                 | Some (d, this') \<Rightarrow> Some (sys\<lparr>object := this', updateMemoryAt := d\<rparr>)))"

fun run :: "engine_sort \<Rightarrow> action list \<Rightarrow> system \<Rightarrow> system option" where
  "run srt [] sys = Some sys"
| "run srt (a # as) sys = (case step srt a sys of None \<Rightarrow> None | Some sys' \<Rightarrow> run srt as sys')"

text \<open>
  Start-up: the constructor, the worker's timer, then the call of \<^verbatim>\<open>_updateMemory\<close>,
  which runs to its first \<^verbatim>\<open>yield\<close>.
\<close>

definition boot :: "(string \<rightharpoonup> string) \<Rightarrow> time \<Rightarrow> error + system" where
  "boot env t =
     (case constructor env t of
        Inl e \<Rightarrow> Inl e
      | Inr this \<Rightarrow>
          (case discoveryHead this of
             (d, this') \<Rightarrow> Inr \<lparr>object = this', updateMemoryAt = d, workerAt = WIdle\<rparr>))"

text \<open>
  A worker pass is in progress from the tick that sets the flag until the flag is cleared;
  an action commits a remap when it is the answer to the inspections of
  \<^verbatim>\<open>_updateServiceMapping\<close>.
\<close>

definition passInProgress :: "system \<Rightarrow> bool" where
  "passInProgress sys = (workerMutex (object sys) \<and> workerAt sys \<noteq> WIdle)"

definition commitsRemap :: "action \<Rightarrow> system \<Rightarrow> bool" where
  "commitsRemap a sys =
     (case (a, updateMemoryAt sys) of
        (Inspected t (Inr containerInfo), DInspecting first serviceMap' i pos rootService) \<Rightarrow>
          now (object sys) \<le> t
      | _ \<Rightarrow> False)"

subsection \<open>Observations used in the properties\<close>

text \<open>The runtime answers an inspection with the record of the container asked for.\<close>

definition faithful :: "docker \<Rightarrow> bool" where
  "faithful rt =
     (\<forall>t containerId info d. inspect rt t containerId = (Inr info, d) \<longrightarrow> info_Id info = containerId)"

text \<open>Every list of a registry is non-empty and free of duplicates.\<close>

definition wellFormed :: "(service \<times> containerId list) list \<Rightarrow> bool" where
  "wellFormed registry =
     list_all (\<lambda>(rootService, containerIds). containerIds \<noteq> [] \<and> distinct containerIds) registry"

text \<open>Every entry still to be visited is held by the map, up to the order of its list.\<close>

definition held :: "(service \<times> containerId list) list \<Rightarrow> (service \<times> containerId list) list \<Rightarrow> bool" where
  "held registry entries =
     list_all (\<lambda>(rootService, containerIds).
        \<exists>committed. map_of registry rootService = Some committed \<and> mset committed = mset containerIds)
       entries"

text \<open>What a registry holds, whatever the order inside each list.\<close>

definition contents :: "(service \<times> containerId list) list \<Rightarrow> (service \<times> containerId multiset) list" where
  "contents registry = map (\<lambda>(rootService, containerIds). (rootService, mset containerIds)) registry"

text \<open>
  The due-time assignments of a trace, in order, as pairs of the clock reading at the
  assignment and the due time assigned; and whether a trace assigns a due time to a service.
\<close>

fun dueTimes :: "event list \<Rightarrow> (time \<times> time) list" where
  "dueTimes [] = []"
| "dueTimes (SetDue rootService t dueAt # evs) = (t, dueAt) # dueTimes evs"
| "dueTimes (e # evs) = dueTimes evs"

fun dueFor :: "service \<Rightarrow> event list \<Rightarrow> bool" where
  "dueFor s [] = False"
| "dueFor s (SetDue rootService t dueAt # evs) = (rootService = s \<or> dueFor s evs)"
| "dueFor s (e # evs) = dueFor s evs"

text \<open>
  A list of assignments is staggered from index \<open>k\<close> on: the clock readings do not
  decrease (from \<open>lo\<close>), and the assignment number \<open>k\<close>, \<open>k + 1\<close>, ... is its clock
  reading plus \<open>base\<close> plus that many times \<open>dist\<close>.
\<close>

fun staggered :: "int \<Rightarrow> int \<Rightarrow> nat \<Rightarrow> time \<Rightarrow> (time \<times> time) list \<Rightarrow> bool" where
  "staggered base dist k lo [] = True"
| "staggered base dist k lo ((t, dueAt) # rest) =
     (lo \<le> t \<and> dueAt = t + base + dist * int k \<and> staggered base dist (Suc k) t rest)"

text \<open>
  The ordering contract as the specification words it: whenever one inspected container
  started strictly earlier than another, its id stands before the other's in the output.
\<close>

definition precedes :: "containerId \<Rightarrow> containerId \<Rightarrow> containerId list \<Rightarrow> bool" where
  "precedes a b out = (a \<in> set out \<and> b \<in> set (drop 1 (dropWhile (\<lambda>x. x \<noteq> a) out)))"

definition oldestFirst :: "containerInfo list \<Rightarrow> containerId list \<Rightarrow> bool" where
  "oldestFirst containerInfo out =
     list_all (\<lambda>a. list_all (\<lambda>b. if info_StartedAt a < info_StartedAt b
                                  then precedes (info_Id a) (info_Id b) out else True)
                      containerInfo)
       containerInfo"

subsection \<open>An example runtime and example states\<close>

text \<open>Concrete values on which the theorems below are instantiated.\<close>

definition labelled :: "service \<Rightarrow> string \<rightharpoonup> string" where
  "labelled s = [''com.docker.compose.service'' \<mapsto> s]"

definition exampleDocker ::
  "container list \<Rightarrow> (containerId \<Rightarrow> time) \<Rightarrow> error option \<Rightarrow> docker" where
  "exampleDocker listing startedAt stopAnswer =
     \<lparr>listContainers = (\<lambda>t. (Inr listing, 10)),
      inspect = (\<lambda>t containerId.
                  (Inr \<lparr>info_Id = containerId, info_StartedAt = startedAt containerId\<rparr>, 5)),
      stop = (\<lambda>t containerId. (stopAnswer, 1000)),
      start = (\<lambda>t containerId. (None, 2000))\<rparr>"

definition exampleObject ::
  "(service \<times> containerId list) list \<Rightarrow> (service \<rightharpoonup> time) \<Rightarrow> time \<Rightarrow> friendlyFire" where
  "exampleObject registry intervals t =
     \<lparr>rolloverInterval = 30 * 60 * 1000,
      initialDebounce = 5 * 60 * 1000,
      serviceRerollDistance = 5 * 60 * 1000,
      services = [''web'', ''db''],
      serviceMap = registry,
      serviceIntervals = intervals,
      dockerConfig = None,
      workerMutex = False,
      now = t,
      trace = []\<rparr>"

text \<open>
  A schedule of the event loop, from a start at clock 1000000 with \<^verbatim>\<open>FF_SERVICES=web\<close>:
  the first listing shows a and b, which are inspected and committed; the next listing is
  issued at once and is slow to answer. A first tick finds nothing due; the tick at 1302000
  finds the service due, sets the flag and awaits the stop of the head container. Then the
  slow listing answers with a and c, and discovery, which read the flag before it issued
  the listing, goes on to inspect. \<open>raceCommit\<close> is the answer to these inspections.
\<close>

definition raceSchedule :: "action list" where
  "raceSchedule =
     [Listed 1000010 (Inr [\<lparr>container_Id = ''a'', container_Labels = labelled ''web''\<rparr>,
                           \<lparr>container_Id = ''b'', container_Labels = labelled ''web''\<rparr>]),
      Inspected 1000020 (Inr [\<lparr>info_Id = ''a'', info_StartedAt = 400000\<rparr>,
                              \<lparr>info_Id = ''b'', info_StartedAt = 500000\<rparr>]),
      Tick 1002000,
      Tick 1302000,
      Listed 1302500 (Inr [\<lparr>container_Id = ''a'', container_Labels = labelled ''web''\<rparr>,
                           \<lparr>container_Id = ''c'', container_Labels = labelled ''web''\<rparr>])]"

definition raceCommit :: action where
  "raceCommit =
     Inspected 1302600 (Inr [\<lparr>info_Id = ''a'', info_StartedAt = 400000\<rparr>,
                             \<lparr>info_Id = ''b'', info_StartedAt = 500000\<rparr>])"

section \<open>Properties\<close>

subsection \<open>Configuration\<close>

lemma toLowerChar_comma: "toLowerChar c = CHR '','' \<longleftrightarrow> c = CHR '',''"
proof (cases "65 \<le> (of_char c :: nat) \<and> (of_char c :: nat) \<le> 90")
  case True
  then have a: "(of_char (toLowerChar c) :: nat) = of_char c + 32"
    by (simp add: toLowerChar_def Let_def)
  have b: "(of_char CHR '','' :: nat) = 44" by simp
  have "toLowerChar c \<noteq> CHR '',''"
  proof
    assume "toLowerChar c = CHR '',''"
    with a b have "(of_char c :: nat) + 32 = 44" by simp
    with True show False by simp
  qed
  moreover have "c \<noteq> CHR '',''"
  proof
    assume "c = CHR '',''"
    with True b show False by simp
  qed
  ultimately show ?thesis by simp
next
  case False
  then show ?thesis by (auto simp: toLowerChar_def Let_def)
qed

lemma split_toLowerCase:
  "split CHR '','' (toLowerCase s) = map toLowerCase (split CHR '','' s)"
proof (induction s)
  case Nil
  show ?case by (simp add: toLowerCase_def)
next
  case (Cons c cs)
  then show ?case
    using toLowerChar_comma [of c]
    by (auto simp: toLowerCase_def split: list.splits)
qed

text \<open>
  C9. Without a service list in the environment (\<^verbatim>\<open>FF_SERVICES\<close> absent or empty)
  \<^verbatim>\<open>_getServiceEnv\<close> throws, so the constructor fails and start-up yields no running
  system: neither the worker's timer nor the discovery loop is started. With a non-empty
  value the configured services are the comma-separated components of the value, each
  lower-cased.
\<close>

theorem getServiceEnv_required:
  "(\<not> truthy (env ''FF_SERVICES'') \<longrightarrow>
      getServiceEnv env this = Inl InvalidServices \<and> constructor env t = Inl InvalidServices
      \<and> boot env t = Inl InvalidServices)
   \<and> (truthy (env ''FF_SERVICES'') \<longrightarrow>
      (\<exists>this'. constructor env t = Inr this'
         \<and> services this' = map toLowerCase (split CHR '','' (the (env ''FF_SERVICES'')))))"
  by (auto simp: truthy_def getServiceEnv_def constructor_def boot_def split_toLowerCase
      split: option.splits)

theorem getServiceEnv_required_witness:
  "\<not> truthy (Map.empty ''FF_SERVICES'') \<and> boot Map.empty 0 = Inl InvalidServices
   \<and> \<not> truthy ([''FF_SERVICES'' \<mapsto> ''''] ''FF_SERVICES'')
   \<and> constructor [''FF_SERVICES'' \<mapsto> ''''] 0 = Inl InvalidServices
   \<and> truthy ([''FF_SERVICES'' \<mapsto> ''Web,DB-1''] ''FF_SERVICES'')
   \<and> (\<exists>this'. constructor [''FF_SERVICES'' \<mapsto> ''Web,DB-1''] 0 = Inr this'
         \<and> services this' = [''web'', ''db-1''])"
proof -
  have a: "\<not> truthy (Map.empty ''FF_SERVICES'')" by (simp add: truthy_def)
  have b: "\<not> truthy ([''FF_SERVICES'' \<mapsto> ''''] ''FF_SERVICES'')" by (simp add: truthy_def)
  have c: "truthy ([''FF_SERVICES'' \<mapsto> ''Web,DB-1''] ''FF_SERVICES'')" by (simp add: truthy_def)
  have d: "map toLowerCase (split CHR '','' ''Web,DB-1'') = [''web'', ''db-1'']"
    by code_simp
  from getServiceEnv_required [of Map.empty undefined 0] a
  have 1: "boot Map.empty 0 = Inl InvalidServices" by blast
  from getServiceEnv_required [of "[''FF_SERVICES'' \<mapsto> '''']" undefined 0] b
  have 2: "constructor [''FF_SERVICES'' \<mapsto> ''''] 0 = Inl InvalidServices" by blast
  from getServiceEnv_required [of "[''FF_SERVICES'' \<mapsto> ''Web,DB-1'']" undefined 0] c d
  have 3: "\<exists>this'. constructor [''FF_SERVICES'' \<mapsto> ''Web,DB-1''] 0 = Inr this'
         \<and> services this' = [''web'', ''db-1'']" by simp
  from a b c 1 2 3 show ?thesis by blast
qed

subsection \<open>The worker pass\<close>

lemma rollover_frame:
  assumes "rollover rt i rootService containerIds this = (r, this')"
  shows "workerMutex this' = workerMutex this"
    and "rolloverInterval this' = rolloverInterval this"
    and "initialDebounce this' = initialDebounce this"
    and "serviceRerollDistance this' = serviceRerollDistance this"
    and "services this' = services this"
    and "now this \<le> now this'"
  using assms
  by (auto simp: rollover_def beginRollover_def callStop_def callStart_def Let_def
      split: list.splits prod.splits option.splits sum.splits)

lemma workerLoop_frame:
  "workerLoop rt i entries this = (r, this') \<Longrightarrow>
     workerMutex this' = workerMutex this \<and> rolloverInterval this' = rolloverInterval this
     \<and> initialDebounce this' = initialDebounce this
     \<and> serviceRerollDistance this' = serviceRerollDistance this
     \<and> services this' = services this \<and> now this \<le> now this'"
proof (induction entries arbitrary: i this)
  case Nil
  then show ?case by simp
next
  case (Cons entry entries)
  obtain rootService containerIds where entry: "entry = (rootService, containerIds)"
    by (cases entry)
  show ?case
  proof (cases "due this rootService")
    case False
    with Cons entry show ?thesis by simp
  next
    case True
    obtain r1 this1 where ro: "rollover rt i rootService containerIds this = (r1, this1)"
      by (cases "rollover rt i rootService containerIds this")
    note fr = rollover_frame [OF ro]
    show ?thesis
    proof (cases r1)
      case None
      with Cons.prems entry True ro
      have "workerLoop rt (Suc i) entries this1 = (r, this')" by simp
      from Cons.IH [OF this] fr show ?thesis by simp
    next
      case (Some e)
      with Cons.prems entry True ro have "this' = this1" by simp
      with fr show ?thesis by simp
    qed
  qed
qed

lemma workerLoop_idle:
  "list_all (\<lambda>(rootService, containerIds). \<not> due this rootService) entries \<Longrightarrow>
     workerLoop rt i entries this = (None, this)"
  by (induction entries) auto

text \<open>
  C2, as stated, fails: the flag is cleared by the last statement of \<^verbatim>\<open>_worker\<close>
  only. With a runtime whose stop call fails, a pass over one due service ends with the
  error and with the flag still set.
\<close>

theorem worker_failure_keeps_flag:
  "fst (worker (exampleDocker [] (\<lambda>i. 0) (Some RuntimeError))
          (exampleObject [(''web'', [''a'', ''b''])] [''web'' \<mapsto> 0] 100)) = Some RuntimeError
   \<and> workerMutex (snd (worker (exampleDocker [] (\<lambda>i. 0) (Some RuntimeError))
          (exampleObject [(''web'', [''a'', ''b''])] [''web'' \<mapsto> 0] 100)))"
  by (simp add: worker_def exampleObject_def exampleDocker_def due_def rollover_def
        beginRollover_def callStop_def callStart_def)

text \<open>
  C2, amended. A worker pass that starts with the flag clear ends with the flag clear
  exactly when it runs to its end without an error; a pass that a failing stop or start
  call (or the \<^verbatim>\<open>TypeError\<close> on an empty list) aborts ends with the flag still set.
\<close>

theorem worker_releases_flag:
  assumes "\<not> workerMutex this" and "worker rt this = (r, this')"
  shows "workerMutex this' = (r \<noteq> None)"
proof -
  obtain r1 this1 where
    loop: "workerLoop rt 0 (serviceMap this) (this\<lparr>workerMutex := True\<rparr>) = (r1, this1)"
    by (cases "workerLoop rt 0 (serviceMap this) (this\<lparr>workerMutex := True\<rparr>)")
  from workerLoop_frame [OF loop] have "workerMutex this1" by simp
  with assms loop show ?thesis
    by (cases r1) (auto simp: worker_def)
qed

theorem worker_releases_flag_witness:
  "\<not> workerMutex (exampleObject [(''web'', [''a'', ''b''])] [''web'' \<mapsto> 0] 100)
   \<and> fst (worker (exampleDocker [] (\<lambda>i. 0) None)
             (exampleObject [(''web'', [''a'', ''b''])] [''web'' \<mapsto> 0] 100)) = None
   \<and> \<not> workerMutex (snd (worker (exampleDocker [] (\<lambda>i. 0) None)
             (exampleObject [(''web'', [''a'', ''b''])] [''web'' \<mapsto> 0] 100)))"
proof -
  have a: "\<not> workerMutex (exampleObject [(''web'', [''a'', ''b''])] [''web'' \<mapsto> 0] 100)"
    by (simp add: exampleObject_def)
  have b: "fst (worker (exampleDocker [] (\<lambda>i. 0) None)
             (exampleObject [(''web'', [''a'', ''b''])] [''web'' \<mapsto> 0] 100)) = None"
    by (simp add: worker_def exampleObject_def exampleDocker_def due_def rollover_def
        beginRollover_def callStop_def callStart_def)
  from worker_releases_flag [OF a surjective_pairing] a b show ?thesis by simp
qed

text \<open>
  C8. When the due time of every service in the registry lies strictly in the future, a
  worker tick returns without an error and leaves the whole object as it was: no stop and
  no start call is added to the trace, and every container list and due time is unchanged.
\<close>

theorem worker_idle_noop:
  assumes "\<forall>(rootService, containerIds) \<in> set (serviceMap this).
             \<exists>t. serviceIntervals this rootService = Some t \<and> now this < t"
  shows "worker rt this = (None, this)"
proof (cases "workerMutex this")
  case True
  then show ?thesis by (simp add: worker_def)
next
  case False
  from assms
  have "list_all (\<lambda>(rootService, containerIds). \<not> due (this\<lparr>workerMutex := True\<rparr>) rootService)
          (serviceMap this)"
    by (auto simp: list_all_iff due_def)
  from workerLoop_idle [OF this] False show ?thesis
    by (simp add: worker_def)
qed

theorem worker_idle_noop_witness:
  "serviceMap (exampleObject [(''web'', [''a'', ''b'']), (''db'', [''x''])]
      [''web'' \<mapsto> 500, ''db'' \<mapsto> 101] 100) = [(''web'', [''a'', ''b'']), (''db'', [''x''])]
   \<and> serviceIntervals (exampleObject [(''web'', [''a'', ''b'']), (''db'', [''x''])]
      [''web'' \<mapsto> 500, ''db'' \<mapsto> 101] 100) ''web'' = Some 500
   \<and> serviceIntervals (exampleObject [(''web'', [''a'', ''b'']), (''db'', [''x''])]
      [''web'' \<mapsto> 500, ''db'' \<mapsto> 101] 100) ''db'' = Some 101
   \<and> now (exampleObject [(''web'', [''a'', ''b'']), (''db'', [''x''])]
      [''web'' \<mapsto> 500, ''db'' \<mapsto> 101] 100) = 100
   \<and> worker (exampleDocker [] (\<lambda>i. 0) None)
        (exampleObject [(''web'', [''a'', ''b'']), (''db'', [''x''])]
           [''web'' \<mapsto> 500, ''db'' \<mapsto> 101] 100)
       = (None, exampleObject [(''web'', [''a'', ''b'']), (''db'', [''x''])]
           [''web'' \<mapsto> 500, ''db'' \<mapsto> 101] 100)"
proof -
  let ?obj = "exampleObject [(''web'', [''a'', ''b'']), (''db'', [''x''])]
           [''web'' \<mapsto> 500, ''db'' \<mapsto> 101] 100"
  have a: "\<forall>(rootService, containerIds) \<in> set (serviceMap ?obj).
       \<exists>t. serviceIntervals ?obj rootService = Some t \<and> now ?obj < t"
    by (simp add: exampleObject_def)
  have b: "serviceMap ?obj = [(''web'', [''a'', ''b'']), (''db'', [''x''])]"
    "serviceIntervals ?obj ''web'' = Some 500" "serviceIntervals ?obj ''db'' = Some 101"
    "now ?obj = 100"
    by (simp_all add: exampleObject_def)
  from worker_idle_noop [OF a] b show ?thesis by blast
qed

lemma dueTimes_append: "dueTimes (xs @ ys) = dueTimes xs @ dueTimes ys"
  by (induction xs rule: dueTimes.induct) auto

lemma dueFor_append: "dueFor s (xs @ ys) = (dueFor s xs \<or> dueFor s ys)"
  by (induction xs rule: dueFor.induct) auto

lemma rollover_effect:
  assumes "rollover rt i rootService containerIds this = (r, this')"
  shows "\<exists>calls. trace this' =
            trace this @ SetDue rootService (now this)
               (now this + rolloverInterval this + serviceRerollDistance this * int i) # calls
          \<and> dueTimes calls = [] \<and> \<not> dueFor s calls"
  using assms
  by (auto simp: rollover_def beginRollover_def callStop_def callStart_def Let_def
      split: list.splits prod.splits option.splits sum.splits)

lemma rollover_others:
  assumes "rollover rt i rootService containerIds this = (r, this')" and "s \<noteq> rootService"
  shows "serviceIntervals this' s = serviceIntervals this s"
    and "map_of (serviceMap this') s = map_of (serviceMap this) s"
  using assms
  by (auto simp: rollover_def beginRollover_def callStop_def callStart_def Let_def update_conv'
      split: list.splits prod.splits option.splits sum.splits)

lemma rollover_done:
  assumes "rollover rt i rootService containerIds this = (None, this')"
  shows "containerIds \<noteq> []"
    and "serviceMap this' =
           AList.update rootService (tl containerIds @ [hd containerIds]) (serviceMap this)"
    and "trace this' = trace this @
           [SetDue rootService (now this)
              (now this + rolloverInterval this + serviceRerollDistance this * int i),
            CallStop (hd containerIds), CallStart (hd containerIds)]"
  using assms
  by (auto simp: rollover_def beginRollover_def callStop_def callStart_def Let_def
      split: list.splits prod.splits option.splits sum.splits)

lemma mset_rotate1: "mset (rotate1 xs) = mset xs"
  by (cases xs) simp_all

lemma mset_rotate: "mset (rotate n xs) = mset xs"
  by (induction n) (simp_all add: mset_rotate1)

text \<open>
  C6. For a service with a non-empty container list, a rollover that succeeds (stop and
  start both answered without error) commits the list with its former head moved to the
  tail: the head id is last, every id occurs as often as before (none duplicated, none
  dropped), the length is the same, and a list without duplicates stays so. The committed
  list is \<open>rotate1\<close> of the old one, and any number of such rotations keeps the length
  and the ids.
\<close>

theorem rollover_rotates:
  assumes "containerIds \<noteq> []"
    and "rollover rt i rootService containerIds this = (None, this')"
  shows "map_of (serviceMap this') rootService = Some (tl containerIds @ [hd containerIds])
     \<and> last (tl containerIds @ [hd containerIds]) = hd containerIds
     \<and> mset (tl containerIds @ [hd containerIds]) = mset containerIds
     \<and> length (tl containerIds @ [hd containerIds]) = length containerIds
     \<and> (distinct containerIds \<longrightarrow> distinct (tl containerIds @ [hd containerIds]))
     \<and> tl containerIds @ [hd containerIds] = rotate1 containerIds
     \<and> (\<forall>n. length (rotate n containerIds) = length containerIds
             \<and> mset (rotate n containerIds) = mset containerIds
             \<and> distinct (rotate n containerIds) = distinct containerIds)
     \<and> (\<exists>dueAt. trace this' = trace this @
           [SetDue rootService (now this) dueAt, CallStop (hd containerIds),
            CallStart (hd containerIds)])"
proof -
  from assms(1) obtain x xs where ids: "containerIds = x # xs" by (cases containerIds) auto
  from rollover_done(2) [OF assms(2)]
  have "map_of (serviceMap this') rootService = Some (tl containerIds @ [hd containerIds])"
    by (simp add: update_conv')
  moreover from rollover_done(3) [OF assms(2)]
  have "\<exists>dueAt. trace this' = trace this @
           [SetDue rootService (now this) dueAt, CallStop (hd containerIds),
            CallStart (hd containerIds)]" by blast
  ultimately show ?thesis using ids by (auto simp: mset_rotate)
qed


theorem rollover_rotates_witness:
  "[''a'', ''b'', ''c''] \<noteq> []
   \<and> fst (rollover (exampleDocker [] (\<lambda>i. 0) None) 0 ''web'' [''a'', ''b'', ''c'']
            (exampleObject [(''web'', [''a'', ''b'', ''c''])] [''web'' \<mapsto> 0] 100)) = None
   \<and> map_of (serviceMap (snd (rollover (exampleDocker [] (\<lambda>i. 0) None) 0 ''web''
            [''a'', ''b'', ''c'']
            (exampleObject [(''web'', [''a'', ''b'', ''c''])] [''web'' \<mapsto> 0] 100)))) ''web''
       = Some [''b'', ''c'', ''a'']
   \<and> distinct [''a'', ''b'', ''c''] \<and> distinct [''b'', ''c'', ''a'']"
proof -
  let ?r = "rollover (exampleDocker [] (\<lambda>i. 0) None) 0 ''web'' [''a'', ''b'', ''c'']
            (exampleObject [(''web'', [''a'', ''b'', ''c''])] [''web'' \<mapsto> 0] 100)"
  have a: "[''a'', ''b'', ''c''] \<noteq> []" by simp
  have b: "fst ?r = None"
    by (simp add: exampleObject_def exampleDocker_def rollover_def
        beginRollover_def callStop_def callStart_def)
  then have c: "?r = (None, snd ?r)" by (simp add: prod_eq_iff)
  from rollover_rotates [OF a c] a b show ?thesis by simp
qed

lemma staggered_mono:
  "staggered base dist k lo tds \<Longrightarrow> lo' \<le> lo \<Longrightarrow> staggered base dist k lo' tds"
  by (cases tds) auto

lemma staggered_nth:
  "staggered base dist i lo tds \<Longrightarrow> k < length tds \<Longrightarrow>
     lo \<le> fst (tds ! k) \<and> snd (tds ! k) = fst (tds ! k) + base + dist * int (i + k)
     \<and> (Suc k < length tds \<longrightarrow> fst (tds ! k) \<le> fst (tds ! Suc k))"
proof (induction tds arbitrary: i lo k)
  case Nil
  then show ?case by simp
next
  case (Cons td tds)
  obtain t dueAt where td: "td = (t, dueAt)" by (cases td)
  show ?case
  proof (cases k)
    case 0
    with Cons.prems td show ?thesis by (cases tds) auto
  next
    case (Suc j)
    from Cons.prems td have st: "staggered base dist (Suc i) t tds" and lo: "lo \<le> t" by auto
    from Cons.prems Suc have j: "j < length tds" by simp
    from Cons.IH [OF st j] lo Suc show ?thesis by auto
  qed
qed

lemma workerLoop_staggered:
  "workerLoop rt i entries this = (r, this') \<Longrightarrow>
     \<exists>evs. trace this' = trace this @ evs
       \<and> staggered (rolloverInterval this) (serviceRerollDistance this) i (now this) (dueTimes evs)"
proof (induction entries arbitrary: i this)
  case Nil
  then show ?case by simp
next
  case (Cons entry entries)
  obtain rootService containerIds where entry: "entry = (rootService, containerIds)"
    by (cases entry)
  show ?case
  proof (cases "due this rootService")
    case False
    with Cons entry show ?thesis by simp
  next
    case True
    obtain r1 this1 where ro: "rollover rt i rootService containerIds this = (r1, this1)"
      by (cases "rollover rt i rootService containerIds this")
    note fr = rollover_frame [OF ro]
    from rollover_effect [OF ro] obtain calls where
      tr: "trace this1 = trace this @ SetDue rootService (now this)
               (now this + rolloverInterval this + serviceRerollDistance this * int i) # calls"
      and calls: "dueTimes calls = []" by blast
    show ?thesis
    proof (cases r1)
      case (Some e)
      with Cons.prems entry True ro have "this' = this1" by simp
      with tr calls show ?thesis by simp
    next
      case None
      with Cons.prems entry True ro
      have "workerLoop rt (Suc i) entries this1 = (r, this')" by simp
      from Cons.IH [OF this] obtain evs where
        evs: "trace this' = trace this1 @ evs"
        and st: "staggered (rolloverInterval this1) (serviceRerollDistance this1) (Suc i)
                   (now this1) (dueTimes evs)" by blast
      from st fr have "staggered (rolloverInterval this) (serviceRerollDistance this) (Suc i)
                   (now this) (dueTimes evs)" by (simp add: staggered_mono)
      with evs tr calls show ?thesis by (simp add: dueTimes_append)
    qed
  qed
qed

lemma workerLoop_skips:
  "workerLoop rt i entries this = (r, this') \<Longrightarrow> serviceIntervals this s = Some dueAt \<Longrightarrow>
   now this' \<le> dueAt \<Longrightarrow>
     serviceIntervals this' s = Some dueAt
     \<and> map_of (serviceMap this') s = map_of (serviceMap this) s
     \<and> (\<exists>evs. trace this' = trace this @ evs \<and> \<not> dueFor s evs)"
proof (induction entries arbitrary: i this)
  case Nil
  then show ?case by simp
next
  case (Cons entry entries)
  obtain rootService containerIds where entry: "entry = (rootService, containerIds)"
    by (cases entry)
  show ?case
  proof (cases "due this rootService")
    case False
    with Cons entry show ?thesis by simp
  next
    case True
    obtain r1 this1 where ro: "rollover rt i rootService containerIds this = (r1, this1)"
      by (cases "rollover rt i rootService containerIds this")
    note fr = rollover_frame [OF ro]
    from rollover_effect [OF ro, of s] obtain calls where
      tr: "trace this1 = trace this @ SetDue rootService (now this)
               (now this + rolloverInterval this + serviceRerollDistance this * int i) # calls"
      and calls: "\<not> dueFor s calls" by blast
    have later: "now this1 \<le> now this'"
    proof (cases r1)
      case (Some e)
      with Cons.prems entry True ro show ?thesis by simp
    next
      case None
      with Cons.prems entry True ro
      have "workerLoop rt (Suc i) entries this1 = (r, this')" by simp
      from workerLoop_frame [OF this] show ?thesis by simp
    qed
    with fr Cons.prems have "now this \<le> dueAt" by simp
    with True Cons.prems have ne: "s \<noteq> rootService" by (auto simp: due_def)
    note ot = rollover_others [OF ro ne]
    show ?thesis
    proof (cases r1)
      case (Some e)
      with Cons.prems entry True ro have "this' = this1" by simp
      with tr calls ot ne Cons.prems show ?thesis by (simp add: dueFor_append)
    next
      case None
      with Cons.prems entry True ro
      have loop: "workerLoop rt (Suc i) entries this1 = (r, this')" by simp
      from Cons.IH [OF loop] ot Cons.prems obtain evs where
        "serviceIntervals this' s = Some dueAt"
        "map_of (serviceMap this') s = map_of (serviceMap this1) s"
        "trace this' = trace this1 @ evs" "\<not> dueFor s evs" by auto
      with tr calls ot ne show ?thesis by (simp add: dueFor_append)
    qed
  qed
qed

subsection \<open>Ordering and remapping\<close>

lemma firstRejection_None:
  "firstRejection rs = None \<Longrightarrow> list_all (\<lambda>r. \<exists>v. fst r = Inr v) rs"
  by (induction rs rule: firstRejection.induct) (auto split: option.splits prod.splits if_splits)

lemma promiseAll_Inr:
  assumes "promiseAll rs = (Inr vs, d)"
  shows "map (Inr \<circ> fst) (zip vs rs) = map fst rs \<and> length vs = length rs"
proof -
  from assms have none: "firstRejection rs = None" and vs: "vs = map (projr \<circ> fst) rs"
    by (auto simp: promiseAll_def split: option.splits prod.splits)
  from firstRejection_None [OF none] have "list_all (\<lambda>r. \<exists>v. fst r = Inr v) rs" .
  then have "map (Inr \<circ> fst) (zip (map (projr \<circ> fst) rs) rs) = map fst rs"
    by (induction rs) auto
  with vs show ?thesis by simp
qed

lemma inspected_ids:
  assumes "faithful rt"
    and "promiseAll (map (inspect rt t) containerIds) = (Inr containerInfo, d)"
  shows "map info_Id containerInfo = containerIds"
proof -
  from assms(2) have none: "firstRejection (map (inspect rt t) containerIds) = None"
    and vs: "containerInfo = map (projr \<circ> fst) (map (inspect rt t) containerIds)"
    by (auto simp: promiseAll_def split: option.splits prod.splits)
  from firstRejection_None [OF none]
  have all: "list_all (\<lambda>r. \<exists>v. fst r = Inr v) (map (inspect rt t) containerIds)" .
  have "map info_Id (map (projr \<circ> fst) (map (inspect rt t) containerIds)) = containerIds"
    using all
  proof (induction containerIds)
    case Nil
    then show ?case by simp
  next
    case (Cons c cs)
    then obtain v where v: "fst (inspect rt t c) = Inr v" by auto
    then have "inspect rt t c = (Inr v, snd (inspect rt t c))" by (simp add: prod_eq_iff)
    with assms(1) have "info_Id v = c" unfolding faithful_def by blast
    with Cons v show ?case by simp
  qed
  with vs show ?thesis by simp
qed

lemma array_sort_mset:
  assumes "permuting srt"
  shows "mset (array_sort srt comparefn xs) = mset xs"
proof -
  define ks where "ks = srt (\<lambda>i j. if i < length xs \<and> j < length xs then comparefn (xs ! i) (xs ! j) else 0)
               (length xs)"
  from assms have ks: "mset ks = mset [0..<length xs]" unfolding permuting_def ks_def by blast
  then have "set ks = set [0..<length xs]" by (rule mset_eq_setD)
  then have "filter (\<lambda>k. k < length xs) ks = ks" by (auto simp: filter_id_conv)
  then have "array_sort srt comparefn xs = map (\<lambda>k. xs ! k) ks"
    by (simp add: array_sort_def ks_def)
  then have "mset (array_sort srt comparefn xs) = image_mset (\<lambda>k. xs ! k) (mset ks)"
    by simp
  also have "\<dots> = mset (map (\<lambda>k. xs ! k) [0..<length xs])" by (simp add: ks)
  also have "\<dots> = mset xs" by (simp only: map_nth)
  finally show ?thesis .
qed

lemma sortedByAge_mset:
  "permuting srt \<Longrightarrow> mset (sortedByAge srt now' containerInfo) = mset (map info_Id containerInfo)"
  by (simp add: sortedByAge_def array_sort_mset)

lemma dueTimes_inspects: "dueTimes (map CallInspect containerIds) = []"
  by (induction containerIds) auto

lemma dueFor_inspects: "\<not> dueFor s (map CallInspect containerIds)"
  by (induction containerIds) auto

lemma sortContainersByAge_effect:
  assumes "sortContainersByAge srt rt containerIds this = (res, this1)"
  shows "this1 = this\<lparr>now := now this1, trace := trace this @ map CallInspect containerIds\<rparr>"
    and "now this \<le> now this1"
  using assms
  by (auto simp: sortContainersByAge_def Let_def split: prod.splits sum.splits)

lemma sortContainersByAge_mset:
  assumes "permuting srt" and "faithful rt"
    and "sortContainersByAge srt rt containerIds this = (Inr sortedContainerIds, this1)"
  shows "mset sortedContainerIds = mset containerIds"
proof -
  from assms(3) obtain containerInfo d where
    p: "promiseAll (map (inspect rt (now this)) containerIds) = (Inr containerInfo, d)"
    and s: "sortedContainerIds = sortedByAge srt (now this1) containerInfo"
    by (auto simp: sortContainersByAge_def Let_def split: prod.splits sum.splits)
  from inspected_ids [OF assms(2) p] s assms(1) show ?thesis
    by (simp add: sortedByAge_mset)
qed

lemma updateServiceMapping_frame:
  assumes "updateServiceMapping srt rt i rootService containerIds this = (r, this')"
  shows "workerMutex this' = workerMutex this \<and> rolloverInterval this' = rolloverInterval this
     \<and> initialDebounce this' = initialDebounce this
     \<and> serviceRerollDistance this' = serviceRerollDistance this
     \<and> services this' = services this \<and> now this \<le> now this'"
  using assms
  by (auto simp: updateServiceMapping_def sortContainersByAge_def commitMapping_def Let_def
      split: prod.splits sum.splits)

lemma updateServiceMapping_trace:
  assumes "updateServiceMapping srt rt i rootService containerIds this = (r, this')"
  shows "\<exists>evs. trace this' = trace this @ evs
           \<and> dueTimes evs = (if r = None
                then [(now this', now this' + initialDebounce this + serviceRerollDistance this * int i)]
                else [])
           \<and> (dueFor s evs \<longrightarrow> s = rootService)"
  using assms
  by (auto simp: updateServiceMapping_def sortContainersByAge_def commitMapping_def Let_def
      dueTimes_append dueTimes_inspects dueFor_append dueFor_inspects
      split: prod.splits sum.splits)

lemma updateServiceMapping_failed:
  assumes "updateServiceMapping srt rt i rootService containerIds this = (Some e, this')"
  shows "serviceMap this' = serviceMap this \<and> serviceIntervals this' = serviceIntervals this"
  using assms
  by (auto simp: updateServiceMapping_def sortContainersByAge_def commitMapping_def Let_def
      split: prod.splits sum.splits)

lemma updateServiceMapping_done:
  assumes "updateServiceMapping srt rt i rootService containerIds this = (None, this')"
  shows "\<exists>sortedContainerIds this1.
           sortContainersByAge srt rt containerIds this = (Inr sortedContainerIds, this1)
         \<and> serviceMap this' = AList.update rootService sortedContainerIds (serviceMap this)
         \<and> serviceIntervals this' = (serviceIntervals this)(rootService \<mapsto>
               now this' + initialDebounce this + serviceRerollDistance this * int i)"
  using assms
  by (auto simp: updateServiceMapping_def sortContainersByAge_def commitMapping_def Let_def
      split: prod.splits sum.splits)

lemma wellFormed_update:
  "wellFormed registry \<Longrightarrow> containerIds \<noteq> [] \<Longrightarrow> distinct containerIds \<Longrightarrow>
     wellFormed (AList.update rootService containerIds registry)"
  by (induction registry) (auto simp: wellFormed_def)

lemma contents_update:
  "map_of registry rootService = Some containerIds \<Longrightarrow> mset sortedContainerIds = mset containerIds \<Longrightarrow>
     contents (AList.update rootService sortedContainerIds registry) = contents registry"
  by (induction registry) (auto simp: contents_def)

lemma mset_wellFormed:
  assumes "mset sortedContainerIds = mset containerIds"
    and "containerIds \<noteq> []" and "distinct containerIds"
  shows "sortedContainerIds \<noteq> [] \<and> distinct sortedContainerIds"
proof -
  from assms(1) have "set sortedContainerIds = set containerIds" by (rule mset_eq_setD)
  with assms(2) have "sortedContainerIds \<noteq> []" by auto
  moreover from mset_eq_imp_distinct_iff [OF assms(1)] assms(3)
  have "distinct sortedContainerIds" by blast
  ultimately show ?thesis by simp
qed

lemma updateServiceMapping_wellFormed:
  assumes "permuting srt" and "faithful rt"
    and "updateServiceMapping srt rt i rootService containerIds this = (r, this')"
    and "containerIds \<noteq> []" and "distinct containerIds" and "wellFormed (serviceMap this)"
  shows "wellFormed (serviceMap this')"
proof (cases r)
  case (Some e)
  with assms(3) updateServiceMapping_failed [of srt rt i rootService containerIds this e this']
  show ?thesis using assms(6) by simp
next
  case None
  with assms(3) updateServiceMapping_done [of srt rt i rootService containerIds this this']
  obtain sortedContainerIds this1 where
    s: "sortContainersByAge srt rt containerIds this = (Inr sortedContainerIds, this1)"
    and m: "serviceMap this' = AList.update rootService sortedContainerIds (serviceMap this)"
    by auto
  from sortContainersByAge_mset [OF assms(1,2) s]
  have "mset sortedContainerIds = mset containerIds" .
  from mset_wellFormed [OF this assms(4,5)] m assms(6) show ?thesis
    by (simp add: wellFormed_update)
qed

lemma firstRunLoop_frame:
  "firstRunLoop srt rt i entries this = (r, this') \<Longrightarrow>
     workerMutex this' = workerMutex this \<and> rolloverInterval this' = rolloverInterval this
     \<and> initialDebounce this' = initialDebounce this
     \<and> serviceRerollDistance this' = serviceRerollDistance this
     \<and> services this' = services this \<and> now this \<le> now this'"
proof (induction entries arbitrary: i this)
  case Nil
  then show ?case by simp
next
  case (Cons entry entries)
  obtain rootService containerIds where entry: "entry = (rootService, containerIds)"
    by (cases entry)
  obtain r1 this1 where
    u: "updateServiceMapping srt rt i rootService containerIds this = (r1, this1)"
    by (cases "updateServiceMapping srt rt i rootService containerIds this")
  note fr = updateServiceMapping_frame [OF u]
  show ?case
  proof (cases r1)
    case (Some e)
    with Cons.prems entry u have "this' = this1" by simp
    with fr show ?thesis by simp
  next
    case None
    with Cons.prems entry u have "firstRunLoop srt rt (Suc i) entries this1 = (r, this')" by simp
    from Cons.IH [OF this] fr show ?thesis by simp
  qed
qed

lemma firstRunLoop_staggered:
  "firstRunLoop srt rt i entries this = (r, this') \<Longrightarrow>
     \<exists>evs. trace this' = trace this @ evs
       \<and> staggered (initialDebounce this) (serviceRerollDistance this) i (now this) (dueTimes evs)"
proof (induction entries arbitrary: i this)
  case Nil
  then show ?case by simp
next
  case (Cons entry entries)
  obtain rootService containerIds where entry: "entry = (rootService, containerIds)"
    by (cases entry)
  obtain r1 this1 where
    u: "updateServiceMapping srt rt i rootService containerIds this = (r1, this1)"
    by (cases "updateServiceMapping srt rt i rootService containerIds this")
  note fr = updateServiceMapping_frame [OF u]
  from updateServiceMapping_trace [OF u] obtain evs1 where
    tr: "trace this1 = trace this @ evs1"
    and dt: "dueTimes evs1 = (if r1 = None
                then [(now this1, now this1 + initialDebounce this + serviceRerollDistance this * int i)]
                else [])" by blast
  show ?case
  proof (cases r1)
    case (Some e)
    with Cons.prems entry u have "this' = this1" by simp
    with tr dt Some show ?thesis by simp
  next
    case None
    with Cons.prems entry u have "firstRunLoop srt rt (Suc i) entries this1 = (r, this')" by simp
    from Cons.IH [OF this] obtain evs where
      evs: "trace this' = trace this1 @ evs"
      and st: "staggered (initialDebounce this1) (serviceRerollDistance this1) (Suc i)
                 (now this1) (dueTimes evs)" by blast
    from evs tr dt None st fr show ?thesis by (simp add: dueTimes_append)
  qed
qed

lemma firstRunLoop_wellFormed:
  "permuting srt \<Longrightarrow> faithful rt \<Longrightarrow> wellFormed entries \<Longrightarrow> wellFormed (serviceMap this) \<Longrightarrow>
   firstRunLoop srt rt i entries this = (r, this') \<Longrightarrow> wellFormed (serviceMap this')"
proof (induction entries arbitrary: i this)
  case Nil
  then show ?case by simp
next
  case (Cons entry entries)
  obtain rootService containerIds where entry: "entry = (rootService, containerIds)"
    by (cases entry)
  obtain r1 this1 where
    u: "updateServiceMapping srt rt i rootService containerIds this = (r1, this1)"
    by (cases "updateServiceMapping srt rt i rootService containerIds this")
  from Cons.prems(3) entry have ids: "containerIds \<noteq> []" "distinct containerIds"
    and rest: "wellFormed entries" by (auto simp: wellFormed_def)
  from updateServiceMapping_wellFormed [OF Cons.prems(1,2) u ids Cons.prems(4)]
  have wf1: "wellFormed (serviceMap this1)" .
  show ?case
  proof (cases r1)
    case (Some e)
    with Cons.prems entry u have "this' = this1" by simp
    with wf1 show ?thesis by simp
  next
    case None
    with Cons.prems entry u have "firstRunLoop srt rt (Suc i) entries this1 = (r, this')" by simp
    from Cons.IH [OF Cons.prems(1,2) rest wf1 this] show ?thesis .
  qed
qed

lemma driftLoop_cases:
  assumes "driftLoop srt rt serviceMap' i ((rootService, containerIds) # entries) this = (r, this')"
  obtains
    (skip) "driftLoop srt rt serviceMap' i entries this = (r, this')"
  | (failed) e where
      "updateServiceMapping srt rt i rootService containerIds this = (Some e, this')" "r = Some e"
  | (remapped) this1 where
      "updateServiceMapping srt rt i rootService containerIds this = (None, this1)"
      "driftLoop srt rt serviceMap' (Suc i) entries this1 = (r, this')"
  using assms
  by (auto split: option.splits if_splits prod.splits)

lemma driftLoop_frame:
  "driftLoop srt rt serviceMap' i entries this = (r, this') \<Longrightarrow>
     workerMutex this' = workerMutex this \<and> rolloverInterval this' = rolloverInterval this
     \<and> initialDebounce this' = initialDebounce this
     \<and> serviceRerollDistance this' = serviceRerollDistance this
     \<and> services this' = services this \<and> now this \<le> now this'"
proof (induction entries arbitrary: i this)
  case Nil
  then show ?case by simp
next
  case (Cons entry entries)
  obtain rootService containerIds where entry: "entry = (rootService, containerIds)"
    by (cases entry)
  from Cons.prems [unfolded entry] show ?case
  proof (cases rule: driftLoop_cases)
    case skip
    from Cons.IH [OF this] show ?thesis .
  next
    case (failed e)
    from updateServiceMapping_frame [OF failed(1)] show ?thesis .
  next
    case (remapped this1)
    from Cons.IH [OF remapped(2)] updateServiceMapping_frame [OF remapped(1)]
    show ?thesis by simp
  qed
qed

lemma driftLoop_staggered:
  "driftLoop srt rt serviceMap' i entries this = (r, this') \<Longrightarrow>
     \<exists>evs. trace this' = trace this @ evs
       \<and> staggered (initialDebounce this) (serviceRerollDistance this) i (now this) (dueTimes evs)"
proof (induction entries arbitrary: i this)
  case Nil
  then show ?case by simp
next
  case (Cons entry entries)
  obtain rootService containerIds where entry: "entry = (rootService, containerIds)"
    by (cases entry)
  from Cons.prems [unfolded entry] show ?case
  proof (cases rule: driftLoop_cases)
    case skip
    from Cons.IH [OF this] show ?thesis .
  next
    case (failed e)
    from updateServiceMapping_trace [OF failed(1), of rootService] obtain evs where
      "trace this' = trace this @ evs" "dueTimes evs = []" by auto
    then have "trace this' = trace this @ evs
       \<and> staggered (initialDebounce this) (serviceRerollDistance this) i (now this) (dueTimes evs)"
      by simp
    then show ?thesis by blast
  next
    case (remapped this1)
    note fr = updateServiceMapping_frame [OF remapped(1)]
    from updateServiceMapping_trace [OF remapped(1)] obtain evs1 where
      tr: "trace this1 = trace this @ evs1"
      and dt: "dueTimes evs1 =
                 [(now this1, now this1 + initialDebounce this + serviceRerollDistance this * int i)]"
      by auto
    from Cons.IH [OF remapped(2)] obtain evs where
      evs: "trace this' = trace this1 @ evs"
      and st: "staggered (initialDebounce this1) (serviceRerollDistance this1) (Suc i)
                 (now this1) (dueTimes evs)" by blast
    from evs tr dt st fr show ?thesis by (simp add: dueTimes_append)
  qed
qed

lemma driftLoop_wellFormed:
  "permuting srt \<Longrightarrow> faithful rt \<Longrightarrow> wellFormed entries \<Longrightarrow> wellFormed (serviceMap this) \<Longrightarrow>
   driftLoop srt rt serviceMap' i entries this = (r, this') \<Longrightarrow> wellFormed (serviceMap this')"
proof (induction entries arbitrary: i this)
  case Nil
  then show ?case by simp
next
  case (Cons entry entries)
  obtain rootService containerIds where entry: "entry = (rootService, containerIds)"
    by (cases entry)
  from Cons.prems(3) entry have ids: "containerIds \<noteq> []" "distinct containerIds"
    and rest: "wellFormed entries" by (auto simp: wellFormed_def)
  from Cons.prems(5) [unfolded entry] show ?case
  proof (cases rule: driftLoop_cases)
    case skip
    from Cons.IH [OF Cons.prems(1,2) rest Cons.prems(4) this] show ?thesis .
  next
    case (failed e)
    from updateServiceMapping_wellFormed [OF Cons.prems(1,2) failed(1) ids Cons.prems(4)]
    show ?thesis .
  next
    case (remapped this1)
    from updateServiceMapping_wellFormed [OF Cons.prems(1,2) remapped(1) ids Cons.prems(4)]
    have "wellFormed (serviceMap this1)" .
    from Cons.IH [OF Cons.prems(1,2) rest this remapped(2)] show ?thesis .
  qed
qed

lemma held_update:
  assumes "held registry ((rootService, containerIds) # entries)"
    and "mset sortedContainerIds = mset containerIds"
  shows "held (AList.update rootService sortedContainerIds registry) entries"
  unfolding held_def list_all_iff
proof (intro ballI)
  fix entry
  assume mem: "entry \<in> set entries"
  obtain a b where entry: "entry = (a, b)" by (cases entry)
  from assms(1) obtain committed0 where
    c0: "map_of registry rootService = Some committed0" "mset committed0 = mset containerIds"
    by (auto simp: held_def)
  from assms(1) mem entry obtain committed where
    c: "map_of registry a = Some committed" "mset committed = mset b"
    by (auto simp: held_def list_all_iff)
  show "case entry of (rootService', containerIds') \<Rightarrow>
          \<exists>committed'. map_of (AList.update rootService sortedContainerIds registry) rootService'
                          = Some committed' \<and> mset committed' = mset containerIds'"
  proof (cases "a = rootService")
    case True
    with c c0 assms(2) have "mset sortedContainerIds = mset b" by simp
    with True entry show ?thesis by (simp add: update_conv')
  next
    case False
    with c entry show ?thesis by (simp add: update_conv')
  qed
qed

lemma driftLoop_contents:
  "permuting srt \<Longrightarrow> faithful rt \<Longrightarrow> held (serviceMap this) entries \<Longrightarrow>
   driftLoop srt rt serviceMap' i entries this = (r, this') \<Longrightarrow>
     contents (serviceMap this') = contents (serviceMap this)"
proof (induction entries arbitrary: i this)
  case Nil
  then show ?case by simp
next
  case (Cons entry entries)
  obtain rootService containerIds where entry: "entry = (rootService, containerIds)"
    by (cases entry)
  from Cons.prems(3) entry have rest: "held (serviceMap this) entries"
    and here: "\<exists>committed. map_of (serviceMap this) rootService = Some committed
                 \<and> mset committed = mset containerIds"
    by (auto simp: held_def)
  from Cons.prems(4) [unfolded entry] show ?case
  proof (cases rule: driftLoop_cases)
    case skip
    from Cons.IH [OF Cons.prems(1,2) rest this] show ?thesis .
  next
    case (failed e)
    from updateServiceMapping_failed [OF failed(1)] show ?thesis by simp
  next
    case (remapped this1)
    from updateServiceMapping_done [OF remapped(1)] obtain sortedContainerIds this0 where
      s: "sortContainersByAge srt rt containerIds this = (Inr sortedContainerIds, this0)"
      and m: "serviceMap this1 = AList.update rootService sortedContainerIds (serviceMap this)"
      by auto
    from sortContainersByAge_mset [OF Cons.prems(1,2) s]
    have ms: "mset sortedContainerIds = mset containerIds" .
    from Cons.prems(3) entry ms m have "held (serviceMap this1) entries"
      by (simp add: held_update)
    from Cons.IH [OF Cons.prems(1,2) this remapped(2)]
    have "contents (serviceMap this') = contents (serviceMap this1)" .
    also from here ms m have "\<dots> = contents (serviceMap this)"
      by (auto simp: contents_update)
    finally show ?thesis .
  qed
qed

lemma held_self:
  "distinct (map fst registry) \<Longrightarrow> held registry registry"
  by (auto simp: held_def list_all_iff)

subsection \<open>A discovery round\<close>

lemma pushed_wellFormed:
  assumes "wellFormed registry"
    and "services' = (case map_of registry rootService of None \<Rightarrow> [] | Some l \<Rightarrow> l)"
  shows "wellFormed (AList.update rootService
          (if containerId \<in> set services' then services' else services' @ [containerId])
          registry)"
proof -
  have d: "distinct services'"
  proof (cases "map_of registry rootService")
    case None
    with assms(2) show ?thesis by simp
  next
    case (Some l)
    then have "(rootService, l) \<in> set registry" by (rule map_of_SomeD)
    with assms(1) have "distinct l" by (auto simp: wellFormed_def list_all_iff)
    with assms(2) Some show ?thesis by simp
  qed
  show ?thesis
  proof (cases "containerId \<in> set services'")
    case True
    then have "services' \<noteq> []" by auto
    with True d assms(1) show ?thesis by (simp add: wellFormed_update)
  next
    case False
    with d have "services' @ [containerId] \<noteq> [] \<and> distinct (services' @ [containerId])" by simp
    with False assms(1) show ?thesis by (simp add: wellFormed_update)
  qed
qed

lemma populateContainer_wellFormed:
  assumes "wellFormed registry"
  shows "wellFormed (populateContainer qualifiedServices registry c)"
  using assms pushed_wellFormed [OF assms refl]
  by (simp add: populateContainer_def Let_def split: option.splits)

lemma foldl_populateContainer_wellFormed:
  "wellFormed registry \<Longrightarrow> wellFormed (foldl (populateContainer qualifiedServices) registry containers)"
  by (induction containers arbitrary: registry) (auto simp: populateContainer_wellFormed)

lemma populate_wellFormed: "wellFormed (populate qualifiedServices containers)"
  unfolding populate_def
  by (rule foldl_populateContainer_wellFormed) (simp add: wellFormed_def)

lemma updateMemory_cases:
  assumes "updateMemory srt rt this = (r, this')"
  obtains
    (waiting) "workerMutex this" "r = None" "this' = this\<lparr>now := now this + 1000\<rparr>"
  | (listFailed) e d where "\<not> workerMutex this" "listContainers rt (now this) = (Inl e, d)"
      "r = Some e" "this' = this\<lparr>now := now this + int d, trace := trace this @ [CallList]\<rparr>"
  | (firstRun) containers d this1 where "\<not> workerMutex this"
      "listContainers rt (now this) = (Inr containers, d)" "serviceMap this = []"
      "this1 = this\<lparr>now := now this + int d, trace := trace this @ [CallList]\<rparr>"
      "firstRunLoop srt rt 0 (populate (services this) containers)
         (this1\<lparr>serviceMap := populate (services this) containers\<rparr>) = (r, this')"
  | (driftFailed) containers d this1 e where "\<not> workerMutex this"
      "listContainers rt (now this) = (Inr containers, d)" "serviceMap this \<noteq> []"
      "this1 = this\<lparr>now := now this + int d, trace := trace this @ [CallList]\<rparr>"
      "driftLoop srt rt (populate (services this) containers) 0 (serviceMap this) this1
         = (Some e, this')" "r = Some e"
  | (drift) containers d this1 this2 where "\<not> workerMutex this"
      "listContainers rt (now this) = (Inr containers, d)" "serviceMap this \<noteq> []"
      "this1 = this\<lparr>now := now this + int d, trace := trace this @ [CallList]\<rparr>"
      "driftLoop srt rt (populate (services this) containers) 0 (serviceMap this) this1
         = (None, this2)" "r = None" "this' = this2\<lparr>now := now this2 + 5000\<rparr>"
proof (cases "workerMutex this")
  case True
  with assms have "r = None" "this' = this\<lparr>now := now this + 1000\<rparr>"
    by (simp_all add: updateMemory_def)
  with True show ?thesis by (rule waiting)
next
  case False
  obtain res d where l: "listContainers rt (now this) = (res, d)"
    by (cases "listContainers rt (now this)")
  define this1 where "this1 = this\<lparr>now := now this + int d, trace := trace this @ [CallList]\<rparr>"
  show ?thesis
  proof (cases res)
    case (Inl e)
    with assms False l have "r = Some e" "this' = this1"
      by (simp_all add: updateMemory_def this1_def)
    with False l Inl show ?thesis using listFailed this1_def by blast
  next
    case (Inr containers)
    show ?thesis
    proof (cases "serviceMap this = []")
      case True
      with assms False l Inr
      have "firstRunLoop srt rt 0 (populate (services this) containers)
         (this1\<lparr>serviceMap := populate (services this) containers\<rparr>) = (r, this')"
        by (simp add: updateMemory_def Let_def this1_def)
      with False l Inr True show ?thesis using firstRun this1_def by blast
    next
      case ne: False
      obtain r2 this2 where
        dl: "driftLoop srt rt (populate (services this) containers) 0 (serviceMap this) this1
               = (r2, this2)"
        by (cases "driftLoop srt rt (populate (services this) containers) 0 (serviceMap this) this1")
      show ?thesis
      proof (cases r2)
        case None
        with assms False l Inr ne dl have "r = None" "this' = this2\<lparr>now := now this2 + 5000\<rparr>"
          by (simp_all add: updateMemory_def Let_def this1_def)
        with False l Inr ne dl None show ?thesis using drift this1_def by blast
      next
        case (Some e)
        with assms False l Inr ne dl have "r = Some e" "this' = this2"
          by (simp_all add: updateMemory_def Let_def this1_def)
        with False l Inr ne dl Some show ?thesis using driftFailed this1_def by blast
      qed
    qed
  qed
qed

lemma updateMemory_wellFormed:
  assumes "permuting srt" and "faithful rt" and "wellFormed (serviceMap this)"
    and "updateMemory srt rt this = (r, this')"
  shows "wellFormed (serviceMap this')"
  using assms(4)
proof (cases rule: updateMemory_cases)
  case waiting
  with assms(3) show ?thesis by simp
next
  case (listFailed e d)
  with assms(3) show ?thesis by simp
next
  case (firstRun containers d this1)
  from firstRunLoop_wellFormed [OF assms(1,2) populate_wellFormed _ firstRun(5)]
  show ?thesis by (simp add: populate_wellFormed)
next
  case (driftFailed containers d this1 e)
  from driftLoop_wellFormed [OF assms(1,2) assms(3) _ driftFailed(5)] driftFailed(4) assms(3)
  show ?thesis by simp
next
  case (drift containers d this1 this2)
  from driftLoop_wellFormed [OF assms(1,2) assms(3) _ drift(5)] drift(4,7) assms(3)
  show ?thesis by simp
qed

lemma updateMemory_contents:
  assumes "permuting srt" and "faithful rt"
    and "distinct (map fst (serviceMap this))" and "serviceMap this \<noteq> []"
    and "updateMemory srt rt this = (r, this')"
  shows "contents (serviceMap this') = contents (serviceMap this)"
  using assms(5)
proof (cases rule: updateMemory_cases)
  case waiting
  then show ?thesis by simp
next
  case (listFailed e d)
  then show ?thesis by simp
next
  case (firstRun containers d this1)
  with assms(4) show ?thesis by simp
next
  case (driftFailed containers d this1 e)
  from held_self [OF assms(3)] driftFailed(4)
  have "held (serviceMap this1) (serviceMap this)" by simp
  from driftLoop_contents [OF assms(1,2) this driftFailed(5)] driftFailed(4)
  show ?thesis by simp
next
  case (drift containers d this1 this2)
  from held_self [OF assms(3)] drift(4)
  have "held (serviceMap this1) (serviceMap this)" by simp
  from driftLoop_contents [OF assms(1,2) this drift(5)] drift(4,7)
  show ?thesis by simp
qed

lemma updateMemory_staggered:
  assumes "updateMemory srt rt this = (r, this')"
  shows "\<exists>evs. trace this' = trace this @ evs
       \<and> staggered (initialDebounce this) (serviceRerollDistance this) 0 (now this) (dueTimes evs)"
  using assms
proof (cases rule: updateMemory_cases)
  case waiting
  then show ?thesis by simp
next
  case (listFailed e d)
  then show ?thesis by simp
next
  case (firstRun containers d this1)
  from firstRunLoop_staggered [OF firstRun(5)] firstRun(4) obtain evs where
    "trace this' = trace this @ CallList # evs"
    "staggered (initialDebounce this) (serviceRerollDistance this) 0 (now this + int d) (dueTimes evs)"
    by auto
  then have "trace this' = trace this @ CallList # evs
       \<and> staggered (initialDebounce this) (serviceRerollDistance this) 0 (now this)
            (dueTimes (CallList # evs))"
    by (simp add: staggered_mono)
  then show ?thesis by blast
next
  case (driftFailed containers d this1 e)
  from driftLoop_staggered [OF driftFailed(5)] driftFailed(4) obtain evs where
    "trace this' = trace this @ CallList # evs"
    "staggered (initialDebounce this) (serviceRerollDistance this) 0 (now this + int d) (dueTimes evs)"
    by auto
  then have "trace this' = trace this @ CallList # evs
       \<and> staggered (initialDebounce this) (serviceRerollDistance this) 0 (now this)
            (dueTimes (CallList # evs))"
    by (simp add: staggered_mono)
  then show ?thesis by blast
next
  case (drift containers d this1 this2)
  from driftLoop_staggered [OF drift(5)] drift(4,7) obtain evs where
    "trace this' = trace this @ CallList # evs"
    "staggered (initialDebounce this) (serviceRerollDistance this) 0 (now this + int d) (dueTimes evs)"
    by auto
  then have "trace this' = trace this @ CallList # evs
       \<and> staggered (initialDebounce this) (serviceRerollDistance this) 0 (now this)
            (dueTimes (CallList # evs))"
    by (simp add: staggered_mono)
  then show ?thesis by blast
qed

subsection \<open>The example engine and runtime\<close>

lemma mset_insertRight: "mset (insertRight comparefn element placed) = add_mset element (mset placed)"
  by (induction placed) auto

lemma mset_foldl_insertRight:
  "mset (foldl (\<lambda>placed element. insertRight comparefn element placed) placed elements)
     = mset placed + mset elements"
  by (induction elements arbitrary: placed) (auto simp: mset_insertRight)

lemma permuting_insertionSort: "permuting insertionSort"
  unfolding permuting_def insertionSort_def
  by (simp add: mset_foldl_insertRight)

lemma faithful_exampleDocker: "faithful (exampleDocker listing startedAt stopAnswer)"
  by (simp add: faithful_def exampleDocker_def)

subsection \<open>Well-formed registries\<close>

lemma rollover_wellFormed:
  assumes "rollover rt i rootService containerIds this = (r, this')"
    and "containerIds \<noteq> []" and "distinct containerIds" and "wellFormed (serviceMap this)"
  shows "wellFormed (serviceMap this')"
proof -
  from assms(2) obtain containerId others where ids: "containerIds = containerId # others"
    by (cases containerIds) auto
  with assms(3,4)
  have "wellFormed (AList.update rootService (others @ [containerId]) (serviceMap this))"
    by (simp add: wellFormed_update)
  with assms(1) ids show ?thesis
    by (auto simp: rollover_def beginRollover_def callStop_def callStart_def Let_def
        split: prod.splits option.splits)
qed

lemma workerLoop_wellFormed:
  "wellFormed entries \<Longrightarrow> wellFormed (serviceMap this) \<Longrightarrow>
   workerLoop rt i entries this = (r, this') \<Longrightarrow> wellFormed (serviceMap this')"
proof (induction entries arbitrary: i this)
  case Nil
  then show ?case by simp
next
  case (Cons entry entries)
  obtain rootService containerIds where entry: "entry = (rootService, containerIds)"
    by (cases entry)
  from Cons.prems(1) entry have ids: "containerIds \<noteq> []" "distinct containerIds"
    and rest: "wellFormed entries" by (auto simp: wellFormed_def)
  show ?case
  proof (cases "due this rootService")
    case False
    with Cons.prems entry have "workerLoop rt i entries this = (r, this')" by simp
    from Cons.IH [OF rest Cons.prems(2) this] show ?thesis .
  next
    case True
    obtain r1 this1 where ro: "rollover rt i rootService containerIds this = (r1, this1)"
      by (cases "rollover rt i rootService containerIds this")
    from rollover_wellFormed [OF ro ids Cons.prems(2)] have wf1: "wellFormed (serviceMap this1)" .
    show ?thesis
    proof (cases r1)
      case (Some e)
      with Cons.prems entry True ro have "this' = this1" by simp
      with wf1 show ?thesis by simp
    next
      case None
      with Cons.prems entry True ro
      have "workerLoop rt (Suc i) entries this1 = (r, this')" by simp
      from Cons.IH [OF rest wf1 this] show ?thesis .
    qed
  qed
qed

lemma worker_cases:
  assumes "worker rt this = (r, this')"
  obtains
    (busy) "workerMutex this" "r = None" "this' = this"
  | (failed) e where "\<not> workerMutex this"
      "workerLoop rt 0 (serviceMap this) (this\<lparr>workerMutex := True\<rparr>) = (Some e, this')"
      "r = Some e"
  | (finished) this1 where "\<not> workerMutex this"
      "workerLoop rt 0 (serviceMap this) (this\<lparr>workerMutex := True\<rparr>) = (None, this1)"
      "r = None" "this' = this1\<lparr>workerMutex := False\<rparr>"
proof (cases "workerMutex this")
  case True
  with assms have "r = None" "this' = this" by (simp_all add: worker_def)
  with True show ?thesis by (rule busy)
next
  case False
  obtain r1 this1 where
    loop: "workerLoop rt 0 (serviceMap this) (this\<lparr>workerMutex := True\<rparr>) = (r1, this1)"
    by (cases "workerLoop rt 0 (serviceMap this) (this\<lparr>workerMutex := True\<rparr>)")
  show ?thesis
  proof (cases r1)
    case None
    with assms False loop have "r = None" "this' = this1\<lparr>workerMutex := False\<rparr>"
      by (simp_all add: worker_def)
    with False loop None show ?thesis using finished by blast
  next
    case (Some e)
    with assms False loop have "r = Some e" "this' = this1" by (simp_all add: worker_def)
    with False loop Some show ?thesis using failed by blast
  qed
qed

lemma worker_wellFormed:
  assumes "wellFormed (serviceMap this)" and "worker rt this = (r, this')"
  shows "wellFormed (serviceMap this')"
  using assms(2)
proof (cases rule: worker_cases)
  case busy
  with assms(1) show ?thesis by simp
next
  case (failed e)
  from workerLoop_wellFormed [OF assms(1) _ failed(2)] assms(1) show ?thesis by simp
next
  case (finished this1)
  from workerLoop_wellFormed [OF assms(1) _ finished(2)] assms(1) finished(4) show ?thesis by simp
qed

lemma worker_staggered:
  assumes "worker rt this = (r, this')"
  shows "\<exists>evs. trace this' = trace this @ evs
       \<and> staggered (rolloverInterval this) (serviceRerollDistance this) 0 (now this) (dueTimes evs)"
  using assms
proof (cases rule: worker_cases)
  case busy
  then show ?thesis by simp
next
  case (failed e)
  from workerLoop_staggered [OF failed(2)] show ?thesis by simp
next
  case (finished this1)
  from workerLoop_staggered [OF finished(2)] finished(4) show ?thesis by simp
qed

lemma worker_skips:
  assumes "worker rt this = (r, this')" and "serviceIntervals this s = Some dueAt"
    and "now this' \<le> dueAt"
  shows "serviceIntervals this' s = Some dueAt
     \<and> map_of (serviceMap this') s = map_of (serviceMap this) s
     \<and> (\<exists>evs. trace this' = trace this @ evs \<and> \<not> dueFor s evs)"
  using assms(1)
proof (cases rule: worker_cases)
  case busy
  with assms(2) show ?thesis by simp
next
  case (failed e)
  from workerLoop_skips [OF failed(2), of s dueAt] assms(2,3) show ?thesis by simp
next
  case (finished this1)
  from workerLoop_skips [OF finished(2), of s dueAt] assms(2,3) finished(4) show ?thesis by simp
qed

subsection \<open>Staggering\<close>

text \<open>
  C5, as stated, fails: the clock is read anew for every service, and it advances while
  the stop and start calls of the service before are awaited. With two due services and a
  restart that takes three seconds, the second due time exceeds the first by the stagger
  distance plus those three seconds.
\<close>

theorem stagger_not_exact:
  "dueTimes (trace (snd (worker (exampleDocker [] (\<lambda>i. 0) None)
       (exampleObject [(''web'', [''a'', ''b'']), (''db'', [''x''])]
          [''web'' \<mapsto> 0, ''db'' \<mapsto> 0] 100))))
     = [(100, 1800100), (3100, 2103100)]
   \<and> serviceRerollDistance (exampleObject [(''web'', [''a'', ''b'']), (''db'', [''x''])]
          [''web'' \<mapsto> 0, ''db'' \<mapsto> 0] 100) = 300000
   \<and> (2103100 :: int) - 1800100 \<noteq> 300000"
  by (simp add: worker_def exampleObject_def exampleDocker_def due_def rollover_def
        beginRollover_def callStop_def callStart_def)

text \<open>
  C5, amended. In every worker pass and every discovery round, the due time assigned to
  the \<open>k\<close>-th service acted upon (counting from 0, skipped services not counted) is the
  clock reading at its assignment plus the base delay (\<^verbatim>\<open>rolloverInterval\<close> for the
  worker, \<^verbatim>\<open>initialDebounce\<close> for discovery) plus \<open>k\<close> times
  \<^verbatim>\<open>serviceRerollDistance\<close>. So each assignment exceeds the one before by
  \<^verbatim>\<open>serviceRerollDistance\<close> plus the time that passed on the clock between the two,
  which is never negative.
\<close>

theorem passes_staggered:
  assumes "(worker rt this = (r, this') \<and> base = rolloverInterval this)
         \<or> (updateMemory srt rt this = (r, this') \<and> base = initialDebounce this)"
  shows "\<exists>evs. trace this' = trace this @ evs
     \<and> (\<forall>k < length (dueTimes evs).
           snd (dueTimes evs ! k) = fst (dueTimes evs ! k) + base + serviceRerollDistance this * int k
         \<and> (Suc k < length (dueTimes evs) \<longrightarrow>
               fst (dueTimes evs ! k) \<le> fst (dueTimes evs ! Suc k)
             \<and> snd (dueTimes evs ! Suc k) - snd (dueTimes evs ! k)
                 = serviceRerollDistance this + (fst (dueTimes evs ! Suc k) - fst (dueTimes evs ! k))))"
proof -
  from assms obtain evs where
    tr: "trace this' = trace this @ evs"
    and st: "staggered base (serviceRerollDistance this) 0 (now this) (dueTimes evs)"
    using worker_staggered updateMemory_staggered by blast
  have "snd (dueTimes evs ! k) = fst (dueTimes evs ! k) + base + serviceRerollDistance this * int k
         \<and> (Suc k < length (dueTimes evs) \<longrightarrow>
               fst (dueTimes evs ! k) \<le> fst (dueTimes evs ! Suc k)
             \<and> snd (dueTimes evs ! Suc k) - snd (dueTimes evs ! k)
                 = serviceRerollDistance this + (fst (dueTimes evs ! Suc k) - fst (dueTimes evs ! k)))"
    if k: "k < length (dueTimes evs)" for k
  proof -
    from staggered_nth [OF st k]
    have a: "snd (dueTimes evs ! k) = fst (dueTimes evs ! k) + base + serviceRerollDistance this * int k"
      and b: "Suc k < length (dueTimes evs) \<longrightarrow> fst (dueTimes evs ! k) \<le> fst (dueTimes evs ! Suc k)"
      by simp_all
    have "snd (dueTimes evs ! Suc k) - snd (dueTimes evs ! k)
                 = serviceRerollDistance this + (fst (dueTimes evs ! Suc k) - fst (dueTimes evs ! k))"
      if "Suc k < length (dueTimes evs)"
    proof -
      from staggered_nth [OF st that]
      have "snd (dueTimes evs ! Suc k)
              = fst (dueTimes evs ! Suc k) + base + serviceRerollDistance this * int (Suc k)"
        by simp
      with a show ?thesis by (simp add: algebra_simps)
    qed
    with a b show ?thesis by blast
  qed
  with tr show ?thesis by blast
qed

theorem passes_staggered_witness:
  "worker (exampleDocker [] (\<lambda>i. 0) None)
       (exampleObject [(''web'', [''a'', ''b'']), (''db'', [''x''])]
          [''web'' \<mapsto> 0, ''db'' \<mapsto> 0] 100)
     = (None, snd (worker (exampleDocker [] (\<lambda>i. 0) None)
       (exampleObject [(''web'', [''a'', ''b'']), (''db'', [''x''])]
          [''web'' \<mapsto> 0, ''db'' \<mapsto> 0] 100)))
   \<and> (\<exists>evs. trace (snd (worker (exampleDocker [] (\<lambda>i. 0) None)
       (exampleObject [(''web'', [''a'', ''b'']), (''db'', [''x''])]
          [''web'' \<mapsto> 0, ''db'' \<mapsto> 0] 100))) = evs
        \<and> dueTimes evs = [(100, 1800100), (3100, 2103100)]
        \<and> snd (dueTimes evs ! 1) - snd (dueTimes evs ! 0) = 300000 + (fst (dueTimes evs ! 1) - fst (dueTimes evs ! 0)))"
proof -
  let ?obj = "exampleObject [(''web'', [''a'', ''b'']), (''db'', [''x''])]
          [''web'' \<mapsto> 0, ''db'' \<mapsto> 0] 100"
  let ?w = "worker (exampleDocker [] (\<lambda>i. 0) None) ?obj"
  have f: "fst ?w = None"
    by (simp add: worker_def exampleObject_def exampleDocker_def due_def rollover_def
        beginRollover_def callStop_def callStart_def)
  then have w: "?w = (None, snd ?w)" by (simp add: prod_eq_iff)
  have d: "dueTimes (trace (snd ?w)) = [(100, 1800100), (3100, 2103100)]"
    by (simp add: worker_def exampleObject_def exampleDocker_def due_def rollover_def
        beginRollover_def callStop_def callStart_def)
  have c: "serviceRerollDistance ?obj = 300000" "trace ?obj = []"
    by (simp_all add: exampleObject_def)
  from passes_staggered [of _ ?obj None "snd ?w" "rolloverInterval ?obj"] w
  obtain evs where
    tr: "trace (snd ?w) = trace ?obj @ evs"
    and al: "\<forall>k < length (dueTimes evs).
           (Suc k < length (dueTimes evs) \<longrightarrow>
             snd (dueTimes evs ! Suc k) - snd (dueTimes evs ! k)
                 = serviceRerollDistance ?obj + (fst (dueTimes evs ! Suc k) - fst (dueTimes evs ! k)))"
    by blast
  from tr c have e: "evs = trace (snd ?w)" by simp
  with d have "length (dueTimes evs) = 2" by simp
  with al have "snd (dueTimes evs ! Suc 0) - snd (dueTimes evs ! 0)
                 = serviceRerollDistance ?obj + (fst (dueTimes evs ! Suc 0) - fst (dueTimes evs ! 0))"
    by simp
  with c e d w show ?thesis by simp
qed

subsection \<open>Debounce\<close>

text \<open>
  C7. A remap sets the service's due time at least \<^verbatim>\<open>initialDebounce\<close> after the clock
  reading of the remap (the stagger distance is not negative). In every later state that
  still holds this due time and whose clock reads less than \<^verbatim>\<open>initialDebounce\<close> after
  the remap, the worker's due-time check for the service fails and its loop passes over
  the service; and a worker pass that ends before that time leaves the service's list and
  due time in place and assigns it no new due time, so nothing is stopped or started for
  it, however often the worker ticks.
\<close>

theorem remap_debounce:
  assumes "updateServiceMapping srt rt serviceIndex rootService containerIds this = (None, this')"
    and "0 \<le> serviceRerollDistance this"
  shows "\<exists>dueAt. serviceIntervals this' rootService = Some dueAt
     \<and> now this' + initialDebounce this' \<le> dueAt
     \<and> (\<forall>later. serviceIntervals later rootService = Some dueAt
            \<and> now later < now this' + initialDebounce this' \<longrightarrow>
          \<not> due later rootService
          \<and> (\<forall>rt' i ids rest.
                workerLoop rt' i ((rootService, ids) # rest) later = workerLoop rt' i rest later)
          \<and> (\<forall>rt' r final. worker rt' later = (r, final)
                \<and> now final < now this' + initialDebounce this' \<longrightarrow>
              serviceIntervals final rootService = Some dueAt
              \<and> map_of (serviceMap final) rootService = map_of (serviceMap later) rootService
              \<and> (\<exists>evs. trace final = trace later @ evs \<and> \<not> dueFor rootService evs)))"
proof -
  define dueAt where
    "dueAt = now this' + initialDebounce this + serviceRerollDistance this * int serviceIndex"
  from updateServiceMapping_done [OF assms(1)]
  have iv: "serviceIntervals this' rootService = Some dueAt" by (auto simp: dueAt_def)
  from updateServiceMapping_frame [OF assms(1)]
  have cfg: "initialDebounce this' = initialDebounce this" by simp
  from assms(2) have "0 \<le> serviceRerollDistance this * int serviceIndex" by simp
  with cfg have bound: "now this' + initialDebounce this' \<le> dueAt" by (simp add: dueAt_def)
  have "\<not> due later rootService
          \<and> (\<forall>rt' i ids rest.
                workerLoop rt' i ((rootService, ids) # rest) later = workerLoop rt' i rest later)
          \<and> (\<forall>rt' r final. worker rt' later = (r, final)
                \<and> now final < now this' + initialDebounce this' \<longrightarrow>
              serviceIntervals final rootService = Some dueAt
              \<and> map_of (serviceMap final) rootService = map_of (serviceMap later) rootService
              \<and> (\<exists>evs. trace final = trace later @ evs \<and> \<not> dueFor rootService evs))"
    if l: "serviceIntervals later rootService = Some dueAt"
      "now later < now this' + initialDebounce this'" for later
  proof -
    from l bound have nd: "\<not> due later rootService" by (simp add: due_def)
    then have "\<forall>rt' i ids rest.
                workerLoop rt' i ((rootService, ids) # rest) later = workerLoop rt' i rest later"
      by simp
    moreover have "serviceIntervals final rootService = Some dueAt
              \<and> map_of (serviceMap final) rootService = map_of (serviceMap later) rootService
              \<and> (\<exists>evs. trace final = trace later @ evs \<and> \<not> dueFor rootService evs)"
      if w: "worker rt' later = (r, final)" "now final < now this' + initialDebounce this'"
      for rt' r final
    proof -
      from w(2) bound have "now final \<le> dueAt" by simp
      from worker_skips [OF w(1) l(1) this] show ?thesis .
    qed
    ultimately show ?thesis using nd by blast
  qed
  with iv bound show ?thesis by blast
qed

theorem remap_debounce_witness:
  "fst (updateServiceMapping insertionSort (exampleDocker [] (\<lambda>i. 0) None) 1 ''web'' [''a'', ''b'']
          (exampleObject [(''web'', [''a'', ''b''])] Map.empty 100)) = None
   \<and> 0 \<le> serviceRerollDistance (exampleObject [(''web'', [''a'', ''b''])] Map.empty 100)
   \<and> serviceIntervals (snd (updateServiceMapping insertionSort (exampleDocker [] (\<lambda>i. 0) None) 1
          ''web'' [''a'', ''b''] (exampleObject [(''web'', [''a'', ''b''])] Map.empty 100))) ''web''
       = Some 600105
   \<and> \<not> due ((snd (updateServiceMapping insertionSort (exampleDocker [] (\<lambda>i. 0) None) 1
          ''web'' [''a'', ''b''] (exampleObject [(''web'', [''a'', ''b''])] Map.empty 100)))
          \<lparr>now := 300104\<rparr>) ''web''"
proof -
  let ?obj = "exampleObject [(''web'', [''a'', ''b''])] Map.empty 100"
  let ?u = "updateServiceMapping insertionSort (exampleDocker [] (\<lambda>i. 0) None) 1 ''web''
              [''a'', ''b''] ?obj"
  have f: "fst ?u = None"
    by (simp add: updateServiceMapping_def sortContainersByAge_def promiseAll_def
        exampleObject_def exampleDocker_def)
  then have u: "?u = (None, snd ?u)" by (simp add: prod_eq_iff)
  have d: "0 \<le> serviceRerollDistance ?obj" by (simp add: exampleObject_def)
  have v: "serviceIntervals (snd ?u) ''web'' = Some 600105" "now (snd ?u) = 105"
    "initialDebounce (snd ?u) = 300000"
    by (simp_all add: updateServiceMapping_def sortContainersByAge_def promiseAll_def
        commitMapping_def exampleObject_def exampleDocker_def)
  from remap_debounce [OF u d] v(1) have
    "\<forall>later. serviceIntervals later ''web'' = Some 600105
            \<and> now later < now (snd ?u) + initialDebounce (snd ?u) \<longrightarrow> \<not> due later ''web''"
    by auto
  from this [rule_format, of "(snd ?u)\<lparr>now := 300104\<rparr>"] v
  have "\<not> due ((snd ?u)\<lparr>now := 300104\<rparr>) ''web''" by simp
  with f d v show ?thesis by simp
qed

subsection \<open>Committed lists\<close>

text \<open>
  C10. The map that discovery builds from a listing has only non-empty lists without
  duplicates, and so has the empty registry of the constructor. From a registry with this
  property, a discovery round (first run or later run, ended by an error or not) and a
  worker pass both lead to a registry with this property again, given an engine sort that
  rearranges and a runtime that answers an inspection with the container asked for. On
  every list of such a registry the worker's \<^verbatim>\<open>shift\<close> finds a head: the rollover takes
  the branch with a container id, not the \<^verbatim>\<open>TypeError\<close> one.
\<close>

theorem committed_lists_wellFormed:
  assumes "permuting srt" and "faithful rt" and "wellFormed (serviceMap this)"
  shows "wellFormed (populate qualifiedServices containers)
     \<and> wellFormed (serviceMap (snd (updateMemory srt rt this)))
     \<and> wellFormed (serviceMap (snd (worker rt this)))
     \<and> (\<forall>(rootService, containerIds) \<in> set (serviceMap this). \<forall>i this0.
           fst (beginRollover i rootService containerIds this0)
             = Inr (hd containerIds, tl containerIds @ [hd containerIds]))"
proof -
  have "wellFormed (serviceMap (snd (updateMemory srt rt this)))"
    by (rule updateMemory_wellFormed [OF assms surjective_pairing])
  moreover have "wellFormed (serviceMap (snd (worker rt this)))"
    by (rule worker_wellFormed [OF assms(3) surjective_pairing])
  moreover have "fst (beginRollover i rootService containerIds this0)
             = Inr (hd containerIds, tl containerIds @ [hd containerIds])"
    if "(rootService, containerIds) \<in> set (serviceMap this)" for rootService containerIds i this0
  proof -
    from that assms(3) have "containerIds \<noteq> []" by (auto simp: wellFormed_def list_all_iff)
    then show ?thesis by (cases containerIds) (simp_all add: beginRollover_def Let_def)
  qed
  ultimately show ?thesis using populate_wellFormed by blast
qed

theorem committed_lists_wellFormed_witness:
  "permuting insertionSort
   \<and> faithful (exampleDocker [\<lparr>container_Id = ''a'', container_Labels = labelled ''Web''\<rparr>,
                               \<lparr>container_Id = ''b'', container_Labels = labelled ''web''\<rparr>,
                               \<lparr>container_Id = ''a'', container_Labels = labelled ''web''\<rparr>,
                               \<lparr>container_Id = ''z'', container_Labels = labelled ''other''\<rparr>]
                 (\<lambda>i. 0) None)
   \<and> wellFormed (serviceMap (exampleObject [] Map.empty 100))
   \<and> serviceMap (snd (updateMemory insertionSort
        (exampleDocker [\<lparr>container_Id = ''a'', container_Labels = labelled ''Web''\<rparr>,
                        \<lparr>container_Id = ''b'', container_Labels = labelled ''web''\<rparr>,
                        \<lparr>container_Id = ''a'', container_Labels = labelled ''web''\<rparr>,
                        \<lparr>container_Id = ''z'', container_Labels = labelled ''other''\<rparr>]
           (\<lambda>i. 0) None)
        (exampleObject [] Map.empty 100))) = [(''web'', [''b'', ''a''])]
   \<and> wellFormed [(''web'', [''b'', ''a''])]"
proof -
  let ?rt = "exampleDocker [\<lparr>container_Id = ''a'', container_Labels = labelled ''Web''\<rparr>,
                        \<lparr>container_Id = ''b'', container_Labels = labelled ''web''\<rparr>,
                        \<lparr>container_Id = ''a'', container_Labels = labelled ''web''\<rparr>,
                        \<lparr>container_Id = ''z'', container_Labels = labelled ''other''\<rparr>]
           (\<lambda>i. 0) None"
  let ?obj = "exampleObject [] Map.empty 100"
  have w: "wellFormed (serviceMap ?obj)" by (simp add: exampleObject_def wellFormed_def)
  have p: "populate [''web'', ''db'']
             [\<lparr>container_Id = ''a'', container_Labels = labelled ''Web''\<rparr>,
              \<lparr>container_Id = ''b'', container_Labels = labelled ''web''\<rparr>,
              \<lparr>container_Id = ''a'', container_Labels = labelled ''web''\<rparr>,
              \<lparr>container_Id = ''z'', container_Labels = labelled ''other''\<rparr>]
           = [(''web'', [''a'', ''b''])]"
    by code_simp
  have e: "serviceMap (snd (updateMemory insertionSort ?rt ?obj)) = [(''web'', [''b'', ''a''])]"
    by (simp add: updateMemory_def exampleObject_def exampleDocker_def p
        updateServiceMapping_def sortContainersByAge_def promiseAll_def commitMapping_def
        sortedByAge_def array_sort_def insertionSort_def ageComparator_def)
  from committed_lists_wellFormed [OF permuting_insertionSort faithful_exampleDocker w]
  have "wellFormed (serviceMap (snd (updateMemory insertionSort ?rt ?obj)))" by blast
  with e permuting_insertionSort faithful_exampleDocker w show ?thesis by simp
qed

subsection \<open>Drift\<close>

text \<open>
  C1 does not hold of the code. On drift the loop hands \<^verbatim>\<open>containerIds\<close>, the committed
  list, to \<^verbatim>\<open>_updateServiceMapping\<close>, not \<^verbatim>\<open>newContainerIds\<close>. So once the registry
  is populated, a discovery round never changes which ids a service holds: every service
  keeps exactly the ids it had (in some order), and a newly discovered id is not committed.
\<close>

theorem drift_recommits_committed_ids:
  assumes "permuting srt" and "faithful rt"
    and "distinct (map fst (serviceMap this))" and "serviceMap this \<noteq> []"
    and "updateMemory srt rt this = (r, this')"
  shows "contents (serviceMap this') = contents (serviceMap this)"
  using assms by (rule updateMemory_contents)

theorem drift_recommits_committed_ids_witness:
  "permuting insertionSort
   \<and> faithful (exampleDocker [\<lparr>container_Id = ''a'', container_Labels = labelled ''web''\<rparr>,
                               \<lparr>container_Id = ''c'', container_Labels = labelled ''web''\<rparr>]
                 (\<lambda>i. 0) None)
   \<and> serviceMap (exampleObject [(''web'', [''a'', ''b''])] [''web'' \<mapsto> 900000] 100)
       = [(''web'', [''a'', ''b''])]
   \<and> populate (services (exampleObject [(''web'', [''a'', ''b''])] [''web'' \<mapsto> 900000] 100))
        [\<lparr>container_Id = ''a'', container_Labels = labelled ''web''\<rparr>,
         \<lparr>container_Id = ''c'', container_Labels = labelled ''web''\<rparr>] = [(''web'', [''a'', ''c''])]
   \<and> idsDiffer [''a'', ''c''] [''a'', ''b'']
   \<and> fst (updateMemory insertionSort
        (exampleDocker [\<lparr>container_Id = ''a'', container_Labels = labelled ''web''\<rparr>,
                        \<lparr>container_Id = ''c'', container_Labels = labelled ''web''\<rparr>]
           (\<lambda>i. 0) None)
        (exampleObject [(''web'', [''a'', ''b''])] [''web'' \<mapsto> 900000] 100)) = None
   \<and> serviceMap (snd (updateMemory insertionSort
        (exampleDocker [\<lparr>container_Id = ''a'', container_Labels = labelled ''web''\<rparr>,
                        \<lparr>container_Id = ''c'', container_Labels = labelled ''web''\<rparr>]
           (\<lambda>i. 0) None)
        (exampleObject [(''web'', [''a'', ''b''])] [''web'' \<mapsto> 900000] 100)))
       = [(''web'', [''b'', ''a''])]
   \<and> serviceIntervals (snd (updateMemory insertionSort
        (exampleDocker [\<lparr>container_Id = ''a'', container_Labels = labelled ''web''\<rparr>,
                        \<lparr>container_Id = ''c'', container_Labels = labelled ''web''\<rparr>]
           (\<lambda>i. 0) None)
        (exampleObject [(''web'', [''a'', ''b''])] [''web'' \<mapsto> 900000] 100))) ''web''
       = Some 300115
   \<and> contents [(''web'', [''b'', ''a''])] = contents [(''web'', [''a'', ''b''])]"
proof -
  let ?rt = "exampleDocker [\<lparr>container_Id = ''a'', container_Labels = labelled ''web''\<rparr>,
                        \<lparr>container_Id = ''c'', container_Labels = labelled ''web''\<rparr>]
           (\<lambda>i. 0) None"
  let ?obj = "exampleObject [(''web'', [''a'', ''b''])] [''web'' \<mapsto> 900000] 100"
  have m: "serviceMap ?obj = [(''web'', [''a'', ''b''])]" by (simp add: exampleObject_def)
  then have k: "distinct (map fst (serviceMap ?obj))" "serviceMap ?obj \<noteq> []" by simp_all
  have p: "populate [''web'', ''db'']
             [\<lparr>container_Id = ''a'', container_Labels = labelled ''web''\<rparr>,
              \<lparr>container_Id = ''c'', container_Labels = labelled ''web''\<rparr>]
           = [(''web'', [''a'', ''c''])]"
    by code_simp
  then have p': "populate (services ?obj)
             [\<lparr>container_Id = ''a'', container_Labels = labelled ''web''\<rparr>,
              \<lparr>container_Id = ''c'', container_Labels = labelled ''web''\<rparr>]
           = [(''web'', [''a'', ''c''])]"
    by (simp add: exampleObject_def)
  have d: "idsDiffer [''a'', ''c''] [''a'', ''b'']" by (simp add: idsDiffer_def)
  have e: "fst (updateMemory insertionSort ?rt ?obj) = None"
    "serviceMap (snd (updateMemory insertionSort ?rt ?obj)) = [(''web'', [''b'', ''a''])]"
    "serviceIntervals (snd (updateMemory insertionSort ?rt ?obj)) ''web'' = Some 300115"
    by (simp_all add: updateMemory_def exampleObject_def exampleDocker_def p d
        updateServiceMapping_def sortContainersByAge_def promiseAll_def commitMapping_def
        sortedByAge_def array_sort_def insertionSort_def ageComparator_def)
  from drift_recommits_committed_ids
         [of insertionSort ?rt ?obj, OF permuting_insertionSort faithful_exampleDocker k
            surjective_pairing] e(2) m
  have "contents [(''web'', [''b'', ''a''])] = contents [(''web'', [''a'', ''b''])]" by simp
  with permuting_insertionSort faithful_exampleDocker m p' d e show ?thesis by simp
qed

subsection \<open>Ordering by age\<close>

lemma ageComparator_past: "info_StartedAt a < now' \<Longrightarrow> ageComparator now' a b = 1"
  by (simp add: ageComparator_def)

lemma sortedByAge_same:
  assumes "map info_Id xs = map info_Id ys"
    and "list_all (\<lambda>x. info_StartedAt x < now') xs"
    and "list_all (\<lambda>y. info_StartedAt y < now') ys"
  shows "sortedByAge srt now' xs = sortedByAge srt now' ys"
proof -
  from assms(1) have len: "length xs = length ys" by (rule map_eq_imp_length_eq)
  have cx: "(\<lambda>i j. if i < length xs \<and> j < length xs
                    then ageComparator now' (xs ! i) (xs ! j) else 0)
          = (\<lambda>i j. if i < length xs \<and> j < length xs then 1 else 0)"
    using assms(2) by (auto simp: fun_eq_iff list_all_length ageComparator_past)
  have cy: "(\<lambda>i j. if i < length ys \<and> j < length ys
                    then ageComparator now' (ys ! i) (ys ! j) else 0)
          = (\<lambda>i j. if i < length ys \<and> j < length ys then 1 else 0)"
    using assms(3) by (auto simp: fun_eq_iff list_all_length ageComparator_past)
  define ks where
    "ks = filter (\<lambda>k. k < length xs)
            (srt (\<lambda>i j. if i < length xs \<and> j < length xs then 1 else 0) (length xs))"
  have x: "sortedByAge srt now' xs = map (\<lambda>k. info_Id (xs ! k)) ks"
    by (simp add: sortedByAge_def array_sort_def cx ks_def comp_def)
  have y: "sortedByAge srt now' ys = map (\<lambda>k. info_Id (ys ! k)) ks"
    by (simp add: sortedByAge_def array_sort_def cy ks_def comp_def len)
  have "info_Id (xs ! k) = info_Id (ys ! k)" if "k \<in> set ks" for k
  proof -
    from that have k: "k < length xs" by (simp add: ks_def)
    then have "info_Id (xs ! k) = map info_Id xs ! k" by simp
    also have "\<dots> = map info_Id ys ! k" by (simp only: assms(1))
    also from k len have "\<dots> = info_Id (ys ! k)" by simp
    finally show ?thesis .
  qed
  then have "map (\<lambda>k. info_Id (xs ! k)) ks = map (\<lambda>k. info_Id (ys ! k)) ks" by simp
  with x y show ?thesis by simp
qed

lemma two_ids:
  assumes "mset out = {#a, b#}"
  shows "out = [a, b] \<or> out = [b, a]"
proof -
  from assms have "size (mset out) = 2" by simp
  then have "length out = 2" by simp
  then obtain x y where out: "out = [x, y]"
    by (cases out; cases "tl out") auto
  with assms have "{#x, y#} = {#a, b#}" by simp
  then have "(x = a \<and> y = b) \<or> (x = b \<and> y = a)"
    by (auto simp: add_eq_conv_ex)
  with out show ?thesis by auto
qed

text \<open>
  Whatever the engine, as long as it rearranges: of the two ways to assign the start times
  1000 and 2000 to the ids a and b, at most one comes out oldest first.
\<close>

lemma no_engine_orders_both:
  assumes "permuting srt"
  shows "\<not> (oldestFirst
             [\<lparr>info_Id = ''a'', info_StartedAt = 1000\<rparr>, \<lparr>info_Id = ''b'', info_StartedAt = 2000\<rparr>]
             (sortedByAge srt 5000
                [\<lparr>info_Id = ''a'', info_StartedAt = 1000\<rparr>, \<lparr>info_Id = ''b'', info_StartedAt = 2000\<rparr>])
          \<and> oldestFirst
             [\<lparr>info_Id = ''a'', info_StartedAt = 2000\<rparr>, \<lparr>info_Id = ''b'', info_StartedAt = 1000\<rparr>]
             (sortedByAge srt 5000
                [\<lparr>info_Id = ''a'', info_StartedAt = 2000\<rparr>, \<lparr>info_Id = ''b'', info_StartedAt = 1000\<rparr>]))"
proof -
  let ?xs = "[\<lparr>info_Id = ''a'', info_StartedAt = 1000\<rparr>, \<lparr>info_Id = ''b'', info_StartedAt = 2000\<rparr>]"
  let ?ys = "[\<lparr>info_Id = ''a'', info_StartedAt = 2000\<rparr>, \<lparr>info_Id = ''b'', info_StartedAt = 1000\<rparr>]"
  have "sortedByAge srt 5000 ?xs = sortedByAge srt 5000 ?ys"
    by (rule sortedByAge_same) simp_all
  moreover from sortedByAge_mset [OF assms, of 5000 ?xs]
  have "mset (sortedByAge srt 5000 ?xs) = {#''a'', ''b''#}" by simp
  then have "sortedByAge srt 5000 ?xs = [''a'', ''b''] \<or> sortedByAge srt 5000 ?xs = [''b'', ''a'']"
    by (rule two_ids)
  ultimately show ?thesis
    by (auto simp: oldestFirst_def precedes_def)
qed

text \<open>
  C3 does not hold of the code. The comparator never looks at its second argument: for
  containers that all started before the sort it answers 1 for every pair. The engine
  therefore gets the same answers whatever the start times are, and the order of the
  output depends on the ids' order in the input only, not on the start times.
\<close>

theorem sortedByAge_ignores_start_times:
  assumes "map info_Id xs = map info_Id ys"
    and "list_all (\<lambda>x. info_StartedAt x < now') xs"
    and "list_all (\<lambda>y. info_StartedAt y < now') ys"
  shows "sortedByAge srt now' xs = sortedByAge srt now' ys"
  using assms by (rule sortedByAge_same)

theorem sortedByAge_ignores_start_times_witness:
  "map info_Id [\<lparr>info_Id = ''a'', info_StartedAt = 1000\<rparr>, \<lparr>info_Id = ''b'', info_StartedAt = 2000\<rparr>]
     = map info_Id [\<lparr>info_Id = ''a'', info_StartedAt = 2000\<rparr>, \<lparr>info_Id = ''b'', info_StartedAt = 1000\<rparr>]
   \<and> list_all (\<lambda>x. info_StartedAt x < 5000)
        [\<lparr>info_Id = ''a'', info_StartedAt = 1000\<rparr>, \<lparr>info_Id = ''b'', info_StartedAt = 2000\<rparr>]
   \<and> list_all (\<lambda>x. info_StartedAt x < 5000)
        [\<lparr>info_Id = ''a'', info_StartedAt = 2000\<rparr>, \<lparr>info_Id = ''b'', info_StartedAt = 1000\<rparr>]
   \<and> sortedByAge insertionSort 5000
        [\<lparr>info_Id = ''a'', info_StartedAt = 1000\<rparr>, \<lparr>info_Id = ''b'', info_StartedAt = 2000\<rparr>]
       = [''b'', ''a'']
   \<and> sortedByAge insertionSort 5000
        [\<lparr>info_Id = ''a'', info_StartedAt = 2000\<rparr>, \<lparr>info_Id = ''b'', info_StartedAt = 1000\<rparr>]
       = [''b'', ''a'']
   \<and> \<not> oldestFirst
        [\<lparr>info_Id = ''a'', info_StartedAt = 1000\<rparr>, \<lparr>info_Id = ''b'', info_StartedAt = 2000\<rparr>]
        (sortedByAge insertionSort 5000
           [\<lparr>info_Id = ''a'', info_StartedAt = 1000\<rparr>, \<lparr>info_Id = ''b'', info_StartedAt = 2000\<rparr>])"
proof -
  let ?xs = "[\<lparr>info_Id = ''a'', info_StartedAt = 1000\<rparr>, \<lparr>info_Id = ''b'', info_StartedAt = 2000\<rparr>]"
  let ?ys = "[\<lparr>info_Id = ''a'', info_StartedAt = 2000\<rparr>, \<lparr>info_Id = ''b'', info_StartedAt = 1000\<rparr>]"
  have a: "map info_Id ?xs = map info_Id ?ys" by simp
  have b: "list_all (\<lambda>x. info_StartedAt x < 5000) ?xs" by simp
  have c: "list_all (\<lambda>x. info_StartedAt x < 5000) ?ys" by simp
  have y: "sortedByAge insertionSort 5000 ?ys = [''b'', ''a'']"
    by (simp add: sortedByAge_def array_sort_def insertionSort_def ageComparator_def)
  from sortedByAge_ignores_start_times [OF a b c, of insertionSort] y
  have x: "sortedByAge insertionSort 5000 ?xs = [''b'', ''a'']" by simp
  have "\<not> oldestFirst ?xs [''b'', ''a'']" by (simp add: oldestFirst_def precedes_def)
  with a b c x y show ?thesis by simp
qed

subsection \<open>Discovery and the worker on one event loop\<close>

text \<open>
  The pass functions and the steps describe the same code: run alone, with the answers of
  the example runtime arriving as events, the coroutines reach the objects that
  \<open>worker\<close> and \<open>updateMemory\<close> compute.
\<close>

lemma worker_as_steps_example:
  "(case run insertionSort
           [Tick 100, Stopped 1100 None, Started 3100 None, Stopped 4100 None, Started 6100 None]
           \<lparr>object = exampleObject [(''web'', [''a'', ''b'']), (''db'', [''x''])]
                       [''web'' \<mapsto> 0, ''db'' \<mapsto> 0] 100,
            updateMemoryAt = DSleeping 5000, workerAt = WIdle\<rparr> of
      None \<Rightarrow> False
    | Some sys \<Rightarrow>
        (case worker (exampleDocker [] (\<lambda>i. 0) None)
                (exampleObject [(''web'', [''a'', ''b'']), (''db'', [''x''])]
                   [''web'' \<mapsto> 0, ''db'' \<mapsto> 0] 100) of
           (r, this') \<Rightarrow>
             r = None \<and> workerAt sys = WIdle
             \<and> serviceMap (object sys) = serviceMap this'
             \<and> serviceIntervals (object sys) ''web'' = serviceIntervals this' ''web''
             \<and> serviceIntervals (object sys) ''db'' = serviceIntervals this' ''db''
             \<and> workerMutex (object sys) = workerMutex this'
             \<and> now (object sys) = now this'
             \<and> trace (object sys) = trace this'))"
  by code_simp

lemma updateMemory_as_steps_example:
  "(case run insertionSort
           [Wake 100,
            Listed 110 (Inr [\<lparr>container_Id = ''a'', container_Labels = labelled ''web''\<rparr>,
                             \<lparr>container_Id = ''c'', container_Labels = labelled ''web''\<rparr>]),
            Inspected 115 (Inr [\<lparr>info_Id = ''a'', info_StartedAt = 0\<rparr>,
                                \<lparr>info_Id = ''b'', info_StartedAt = 0\<rparr>])]
           \<lparr>object = exampleObject [(''web'', [''a'', ''b''])] [''web'' \<mapsto> 900000] 100,
            updateMemoryAt = DSleeping 100, workerAt = WIdle\<rparr> of
      None \<Rightarrow> False
    | Some sys \<Rightarrow>
        (case updateMemory insertionSort
                (exampleDocker [\<lparr>container_Id = ''a'', container_Labels = labelled ''web''\<rparr>,
                                \<lparr>container_Id = ''c'', container_Labels = labelled ''web''\<rparr>]
                   (\<lambda>i. 0) None)
                (exampleObject [(''web'', [''a'', ''b''])] [''web'' \<mapsto> 900000] 100) of
           (r, this') \<Rightarrow>
             r = None \<and> updateMemoryAt sys = DSleeping (now this')
             \<and> serviceMap (object sys) = serviceMap this'
             \<and> serviceIntervals (object sys) ''web'' = serviceIntervals this' ''web''
             \<and> workerMutex (object sys) = workerMutex this'
             \<and> trace (object sys) = trace this'))"
  by code_simp

text \<open>The guard that the code has: at the head of its loop, discovery waits while the flag is set.\<close>

lemma discoveryHead_waits:
  "workerMutex this \<Longrightarrow> discoveryHead this = (DSleeping (now this + 1000), this)"
  by (simp add: discoveryHead_def)

text \<open>
  C4 does not hold of the code. The flag is read at the head of the discovery loop only,
  before the listing is awaited; the remap that follows the listing and the inspections
  does not read it again. In the schedule \<open>raceSchedule\<close> the worker's pass is in
  progress (flag set, stop of b awaited, list rotated to a, b and due time 3102000) when
  the inspections answer, and discovery then commits its own list b, a and the due time
  1602600 into the registry, the pass still being in progress afterwards.
\<close>

theorem remap_during_worker_pass:
  "(case boot [''FF_SERVICES'' \<mapsto> ''web''] 1000000 of
      Inl e \<Rightarrow> False
    | Inr sys0 \<Rightarrow>
        (case run insertionSort raceSchedule sys0 of
           None \<Rightarrow> False
         | Some mid \<Rightarrow>
             passInProgress mid \<and> commitsRemap raceCommit mid
             \<and> workerAt mid = WStopping 1 0 ''web'' [''a'', ''b''] ''b''
             \<and> serviceMap (object mid) = [(''web'', [''a'', ''b''])]
             \<and> serviceIntervals (object mid) ''web'' = Some 3102000
             \<and> (case step insertionSort raceCommit mid of
                   None \<Rightarrow> False
                 | Some post \<Rightarrow>
                     passInProgress post
                     \<and> serviceMap (object post) = [(''web'', [''b'', ''a''])]
                     \<and> serviceIntervals (object post) ''web'' = Some 1602600)))"
  by code_simp

end
